theory Spec2Isabelle
  imports Main
begin

section \<open>The lookup cache (cacheGet / cacheSet over a JavaScript Map)\<close>

text \<open>
  \<^verbatim>\<open>airtableCache\<close> is a JavaScript \<^verbatim>\<open>Map\<close>: its keys are distinct and it iterates in
  insertion order. It is modelled as an association list, oldest insertion first.
  \<^verbatim>\<open>Map.set\<close> on a key that is present overwrites the value in place (the key keeps its
  position); on an absent key it appends. \<^verbatim>\<open>Map.delete\<close> removes the key.
\<close>

type_synonym ('k, 'v) js_map = "('k \<times> 'v) list"

definition map_has :: "('k, 'v) js_map \<Rightarrow> 'k \<Rightarrow> bool" where
  "map_has m k = (k \<in> set (map fst m))"

definition map_get :: "('k, 'v) js_map \<Rightarrow> 'k \<Rightarrow> 'v option" where
  "map_get m k = map_of m k"

definition map_delete :: "('k, 'v) js_map \<Rightarrow> 'k \<Rightarrow> ('k, 'v) js_map" where
  "map_delete m k = filter (\<lambda>p. fst p \<noteq> k) m"

fun map_set :: "('k, 'v) js_map \<Rightarrow> 'k \<Rightarrow> 'v \<Rightarrow> ('k, 'v) js_map" where
  "map_set [] k v = [(k, v)]"
| "map_set ((k', v') # m) k v =
     (if k' = k then (k, v) # m else (k', v') # map_set m k v)"

definition map_size :: "('k, 'v) js_map \<Rightarrow> nat" where
  "map_size m = length m"

definition MAX_CACHE :: nat where
  "MAX_CACHE = 50"

text \<open>
  \<^verbatim>\<open>cacheGet(key)\<close>: \<^verbatim>\<open>null\<close> (here \<open>None\<close>) when the key is absent; otherwise the value,
  after deleting the key and setting it again so that it becomes the newest entry.
\<close>

definition cacheGet :: "('k, 'v) js_map \<Rightarrow> 'k \<Rightarrow> 'v option \<times> ('k, 'v) js_map" where
  "cacheGet cache key =
     (if \<not> map_has cache key then (None, cache)
      else (case map_get cache key of
              None \<Rightarrow> (None, cache)
            | Some val \<Rightarrow> (Some val, map_set (map_delete cache key) key val)))"

text \<open>
  \<^verbatim>\<open>cacheSet(key, value)\<close>, with the capacity \<^verbatim>\<open>MAX_CACHE\<close> as the parameter \<open>cap\<close>:
  delete the key when present, set it, and when the size now exceeds the capacity delete
  the first key of the iteration order.
\<close>

definition cacheSet :: "nat \<Rightarrow> ('k, 'v) js_map \<Rightarrow> 'k \<Rightarrow> 'v \<Rightarrow> ('k, 'v) js_map" where
  "cacheSet cap cache key val =
     (let c1 = (if map_has cache key then map_delete cache key else cache);
          c2 = map_set c1 key val
      in if map_size c2 > cap
         then (case c2 of [] \<Rightarrow> c2 | (first, _) # _ \<Rightarrow> map_delete c2 first)
         else c2)"

datatype ('k, 'v) cache_op = Get 'k | Put 'k 'v

fun cache_step :: "nat \<Rightarrow> ('k, 'v) js_map \<Rightarrow> ('k, 'v) cache_op \<Rightarrow> ('k, 'v) js_map" where
  "cache_step cap c (Get k) = snd (cacheGet c k)"
| "cache_step cap c (Put k v) = cacheSet cap c k v"

fun run_cache :: "nat \<Rightarrow> ('k, 'v) js_map \<Rightarrow> ('k, 'v) cache_op list \<Rightarrow> ('k, 'v) js_map" where
  "run_cache cap c [] = c"
| "run_cache cap c (x # xs) = run_cache cap (cache_step cap c x) xs"

text \<open>
  The keys an operation sequence touches, in time order: every put touches its key, a get
  touches its key when the key is present at that moment (a get of an absent key returns
  \<^verbatim>\<open>null\<close> and inserts nothing).
\<close>

fun touches :: "nat \<Rightarrow> ('k, 'v) js_map \<Rightarrow> ('k, 'v) cache_op list \<Rightarrow> 'k list" where
  "touches cap c [] = []"
| "touches cap c (Get k # xs) =
     (if map_has c k then k # touches cap (cache_step cap c (Get k)) xs
      else touches cap (cache_step cap c (Get k)) xs)"
| "touches cap c (Put k v # xs) = k # touches cap (cache_step cap c (Put k v)) xs"

text \<open>The value most recently put under a key by an operation sequence.\<close>

fun last_put :: "('k, 'v) cache_op list \<Rightarrow> 'k \<Rightarrow> 'v option" where
  "last_put [] k = None"
| "last_put (Get k' # xs) k = last_put xs k"
| "last_put (Put k' v # xs) k =
     (case last_put xs k of Some w \<Rightarrow> Some w | None \<Rightarrow> (if k' = k then Some v else None))"

text \<open>The \<open>n\<close> newest elements of a list ordered oldest first.\<close>

definition newest :: "nat \<Rightarrow> 'a list \<Rightarrow> 'a list" where
  "newest n xs = drop (length xs - n) xs"

definition ops_example :: "(nat, nat) cache_op list" where
  "ops_example = [Put 1 10, Put 2 20, Get 1, Get 7, Put 3 30, Put 1 11]"

section \<open>JavaScript strings and values\<close>

text \<open>
  Strings are character lists. \<^verbatim>\<open>String.prototype.trim\<close> strips white space from both ends
  and \<^verbatim>\<open>toLowerCase\<close> maps letters to lower case; both are modelled on the ASCII range
  (tab, line feed, vertical tab, form feed, carriage return and space; the letters A to Z).
  \<^verbatim>\<open>v.includes(t)\<close> holds when \<open>t\<close> occurs in \<open>v\<close> as a contiguous substring.
\<close>

definition is_space :: "char \<Rightarrow> bool" where
  "is_space c = (c \<in> set [CHR 0x09, CHR 0x0A, CHR 0x0B, CHR 0x0C, CHR 0x0D, CHR 0x20])"

definition trim :: "string \<Rightarrow> string" where
  "trim s = rev (dropWhile is_space (rev (dropWhile is_space s)))"

text \<open>An upper case letter (code 65 to 90) gets the code 32 higher: bit 5 is set.\<close>

definition lower_char :: "char \<Rightarrow> char" where
  "lower_char c =
     (let n = (of_char c :: nat)
      in if 65 \<le> n \<and> n \<le> 90
         then (case c of Char b0 b1 b2 b3 b4 b5 b6 b7 \<Rightarrow> Char b0 b1 b2 b3 b4 True b6 b7)
         else c)"

definition toLowerCase :: "string \<Rightarrow> string" where
  "toLowerCase s = map lower_char s"

fun startsWith :: "string \<Rightarrow> string \<Rightarrow> bool" where
  "startsWith s [] = True"
| "startsWith [] (t # ts) = False"
| "startsWith (c # cs) (t # ts) = (c = t \<and> startsWith cs ts)"

fun js_includes :: "string \<Rightarrow> string \<Rightarrow> bool" where
  "js_includes [] t = (t = [])"
| "js_includes (c # cs) t = (startsWith (c # cs) t \<or> js_includes cs t)"

text \<open>
  The values the controller reads out of a record: \<^verbatim>\<open>undefined\<close> (a missing attribute),
  \<^verbatim>\<open>null\<close>, a string, or any other JSON value (number, boolean, array, object). Of the
  last kind the code observes only its truthiness and its string conversion, so \<open>Other\<close>
  carries exactly these two; such a value has no \<^verbatim>\<open>toLowerCase\<close> method.
\<close>

datatype jsval = Undefined | Null | Str string | Other bool string

fun truthy :: "jsval \<Rightarrow> bool" where
  "truthy Undefined = False"
| "truthy Null = False"
| "truthy (Str s) = (s \<noteq> [])"
| "truthy (Other t r) = t"

text \<open>\<^verbatim>\<open>a || b\<close>\<close>

definition js_or :: "jsval \<Rightarrow> jsval \<Rightarrow> jsval" where
  "js_or a b = (if truthy a then a else b)"

text \<open>\<^verbatim>\<open>typeof v === 'string'\<close>\<close>

fun is_string :: "jsval \<Rightarrow> bool" where
  "is_string (Str s) = True"
| "is_string v = False"

text \<open>The string stored when a value is assigned to \<^verbatim>\<open>input.value\<close>.\<close>

fun js_string :: "jsval \<Rightarrow> string" where
  "js_string Undefined = ''undefined''"
| "js_string Null = []"
| "js_string (Str s) = s"
| "js_string (Other t r) = r"

section \<open>Records of the record source and the autocomplete adapter\<close>

text \<open>
  A record has an identity token and a \<^verbatim>\<open>fields\<close> object, here an association list from
  attribute names to values; an attribute that is not listed reads as \<^verbatim>\<open>undefined\<close>.
  A query result \<^verbatim>\<open>data\<close> has the property \<^verbatim>\<open>records\<close>, \<open>None\<close> when it is missing.
\<close>

record airtable_record =
  rec_id :: jsval
  rec_fields :: "(string \<times> jsval) list"

definition field_of :: "airtable_record \<Rightarrow> string \<Rightarrow> jsval" where
  "field_of r name = (case map_of (rec_fields r) name of None \<Rightarrow> Undefined | Some v \<Rightarrow> v)"

record query_data =
  records :: "airtable_record list option"

record suggestion =
  label :: jsval
  sugg_value :: jsval
  data :: "airtable_record option"

text \<open>
  The filter predicate of \<^verbatim>\<open>searchAirtableForAutocomplete\<close>:
  \<^verbatim>\<open>n && typeof n === 'string' && n.trim()\<close>, read as a truth value.
\<close>

definition name_filter :: "airtable_record \<Rightarrow> bool" where
  "name_filter r =
     (let n = field_of r ''Official Establishment Name''
      in truthy n \<and> is_string n \<and> (case n of Str s \<Rightarrow> truthy (Str (trim s)) | _ \<Rightarrow> False))"

text \<open>
  \<^verbatim>\<open>searchAirtableForAutocomplete\<close> after its \<^verbatim>\<open>await queryAirtableContains(...)\<close> has
  delivered \<^verbatim>\<open>data\<close>: no records property gives the empty list, otherwise filter, then map.
\<close>

definition searchAirtableForAutocomplete :: "query_data \<Rightarrow> suggestion list" where
  "searchAirtableForAutocomplete dat =
     (case records dat of
        None \<Rightarrow> []
      | Some rs \<Rightarrow>
          map (\<lambda>r. let name = field_of r ''Official Establishment Name''
                    in \<lparr>label = name, sugg_value = name, data = Some r\<rparr>)
              (filter name_filter rs))"

text \<open>The three ways a record has no usable name, in the words of the specification.\<close>

definition name_missing :: "airtable_record \<Rightarrow> bool" where
  "name_missing r = (field_of r ''Official Establishment Name'' = Undefined)"

definition name_not_a_string :: "airtable_record \<Rightarrow> bool" where
  "name_not_a_string r = (\<not> is_string (field_of r ''Official Establishment Name''))"

definition name_whitespace_only :: "airtable_record \<Rightarrow> bool" where
  "name_whitespace_only r =
     (case field_of r ''Official Establishment Name'' of
        Str s \<Rightarrow> list_all is_space s
      | _ \<Rightarrow> False)"

definition records_example :: "airtable_record list" where
  "records_example =
     [\<lparr>rec_id = Str ''rec1'', rec_fields = [(''Official Establishment Name'', Str ''Aman Tokyo'')]\<rparr>,
      \<lparr>rec_id = Str ''rec2'', rec_fields = [(''Award Level'', Str ''Gold'')]\<rparr>,
      \<lparr>rec_id = Str ''rec3'', rec_fields = [(''Official Establishment Name'', Other True ''7'')]\<rparr>,
      \<lparr>rec_id = Str ''rec4'', rec_fields = [(''Official Establishment Name'', Str ''  '')]\<rparr>,
      \<lparr>rec_id = Str ''rec5'', rec_fields = [(''Official Establishment Name'', Str '' Ritz '')]\<rparr>]"

section \<open>The form: fields, modes and the module state\<close>

text \<open>
  The keys of \<^verbatim>\<open>fields\<close> are the seven values of \<^verbatim>\<open>FIELD_LABEL_TO_KEY\<close>. A field binding
  \<^verbatim>\<open>{ label, wrapper, input, select }\<close> is modelled by the state of its elements that the
  controller reads or writes: the label's text, the input's value (\<open>None\<close> when the wrapper
  holds no input), the select (\<open>None\<close> when there is none), the wrapper's
  \<^verbatim>\<open>style.display = 'none'\<close>, the \<^verbatim>\<open>aria-disabled\<close> lock that \<^verbatim>\<open>preventEdit\<close> sets, and the
  inline messages (mismatch hint, length help text, no-results message, error message,
  spinner). The input's parent node, to which the code attaches messages, is taken to be
  the wrapper. A select is a plain single select; the jQuery Select2 enhancement is
  outside the model.
\<close>

datatype FieldKey =
  redemptionCode | officialEstablishmentName | customEstablishmentName
  | establishmentType | partnerStatus | awardLevel | dutiesAndTaxes

record option_el =
  opt_text :: string
  opt_value :: string
  opt_data_name :: "string option"

record select_el =
  sel_options :: "option_el list"
  selectedIndex :: int

record field =
  label_text :: string
  input_value :: "string option"
  fld_select :: "select_el option"
  display_none :: bool
  aria_disabled :: bool
  mismatch_text :: "string option"
  help_text :: "string option"
  no_results :: "string option"
  inline_error :: "string option"
  spinner :: bool

record mode_config =
  hide :: "FieldKey list"
  prevent :: "FieldKey list"

definition MODES :: "string \<Rightarrow> mode_config option" where
  "MODES mode =
     (if mode = ''Partner Early-Access Code Lookup'' then
        Some \<lparr>hide = [],
              prevent = [establishmentType, partnerStatus, awardLevel, dutiesAndTaxes,
                         officialEstablishmentName]\<rparr>
      else if mode = ''Establishment Name Lookup'' then
        Some \<lparr>hide = [redemptionCode],
              prevent = [establishmentType, partnerStatus, awardLevel, dutiesAndTaxes]\<rparr>
      else None)"

record submit_button =
  disabled :: bool
  btn_aria_disabled :: string

record last_selection =
  sel_id :: jsval
  sel_name :: jsval

datatype channel = NameSearch | CodeLookup

text \<open>
  A network request issued by \<^verbatim>\<open>fetch(url, { signal })\<close>: the abort controller of its signal
  (controllers are numbered in the order of their creation), the channel that issued it,
  the queried field and the trimmed query that make up the URL and the cache key, and the
  text the waiting handler holds in its closure (\<^verbatim>\<open>query\<close> or \<^verbatim>\<open>code\<close>).
\<close>

record request =
  req_controller :: nat
  req_channel :: channel
  req_field :: string
  req_query :: string
  req_text :: string

text \<open>
  The module-level state (\<^verbatim>\<open>fields\<close> is \<open>form_fields\<close> here), followed by the part of the environment the claims speak about:
  \<^verbatim>\<open>navigator.onLine === false\<close>, the number of abort controllers created, the controllers
  that have been aborted, the requests in flight, every request ever issued, the blocking
  notices shown by \<^verbatim>\<open>window.alert\<close> and the suggestion lists handed to the autocomplete
  widget's callback. A notice is kept as the label and the value its text is built from,
  together with what the user can see of the field while the notice blocks the page: the
  inline mismatch message that the wrapper of the field holds at that moment.
\<close>

record notice =
  notice_label :: string
  notice_value :: string
  notice_inline :: "string option"

record state =
  form_fields :: "FieldKey \<Rightarrow> field option"
  currentMode :: string
  autocompleteInstance :: bool
  lastSelectedEstablishment :: last_selection
  nameSearchController :: "nat option"
  codeLookupController :: "nat option"
  mismatchAlertDispatched :: bool
  formEl :: "submit_button list option"
  airtableCache :: "(string, query_data) js_map"
  navigator_offline :: bool
  controllers :: nat
  aborted :: "nat list"
  pending :: "request list"
  network_log :: "request list"
  alerts :: "notice list"
  callback_log :: "suggestion list list"

text \<open>A function that either returns a value or throws; the state it leaves is kept beside it.\<close>

datatype 'a outcome = Returned 'a | Threw

subsection \<open>Element helpers\<close>

definition upd_field :: "FieldKey \<Rightarrow> (field \<Rightarrow> field) \<Rightarrow> state \<Rightarrow> state" where
  "upd_field k g s =
     (case form_fields s k of
        None \<Rightarrow> s
      | Some f \<Rightarrow> s\<lparr>form_fields := (form_fields s)(k \<mapsto> g f)\<rparr>)"

definition has_input :: "FieldKey \<Rightarrow> state \<Rightarrow> bool" where
  "has_input k s = (case form_fields s k of None \<Rightarrow> False | Some f \<Rightarrow> input_value f \<noteq> None)"

definition has_select :: "FieldKey \<Rightarrow> state \<Rightarrow> bool" where
  "has_select k s = (case form_fields s k of None \<Rightarrow> False | Some f \<Rightarrow> fld_select f \<noteq> None)"

text \<open>\<^verbatim>\<open>fields[k]?.input?.value\<close>\<close>

definition input_of :: "FieldKey \<Rightarrow> state \<Rightarrow> jsval" where
  "input_of k s =
     (case form_fields s k of
        None \<Rightarrow> Undefined
      | Some f \<Rightarrow> (case input_value f of None \<Rightarrow> Undefined | Some v \<Rightarrow> Str v))"

text \<open>\<^verbatim>\<open>if (fields[k]?.input) fields[k].input.value = v\<close>\<close>

definition set_input :: "FieldKey \<Rightarrow> string \<Rightarrow> state \<Rightarrow> state" where
  "set_input k v s =
     upd_field k (\<lambda>f. case input_value f of None \<Rightarrow> f | Some _ \<Rightarrow> f\<lparr>input_value := Some v\<rparr>) s"

fun find_first :: "('a \<Rightarrow> bool) \<Rightarrow> 'a list \<Rightarrow> (nat \<times> 'a) option" where
  "find_first P [] = None"
| "find_first P (x # xs) =
     (if P x then Some (0, x)
      else (case find_first P xs of None \<Rightarrow> None | Some (i, y) \<Rightarrow> Some (Suc i, y)))"

text \<open>
  \<^verbatim>\<open>select.value = v\<close> selects the first option whose value is \<open>v\<close>, or none (index -1);
  \<^verbatim>\<open>select.selectedIndex = i\<close> selects option \<open>i\<close>, or none when there is no such option.
\<close>

definition select_set_value :: "string \<Rightarrow> select_el \<Rightarrow> select_el" where
  "select_set_value v sel =
     sel\<lparr>selectedIndex :=
           (case find_first (\<lambda>opt. opt_value opt = v) (sel_options sel) of
              None \<Rightarrow> - 1
            | Some (i, _) \<Rightarrow> int i)\<rparr>"

definition select_set_index :: "int \<Rightarrow> select_el \<Rightarrow> select_el" where
  "select_set_index i sel =
     sel\<lparr>selectedIndex := (if 0 \<le> i \<and> i < int (length (sel_options sel)) then i else - 1)\<rparr>"

subsection \<open>Inline messages\<close>

definition removeInlineSpinner :: "FieldKey \<Rightarrow> state \<Rightarrow> state" where
  "removeInlineSpinner k s = upd_field k (\<lambda>f. f\<lparr>spinner := False\<rparr>) s"

definition showInlineSpinner :: "FieldKey \<Rightarrow> state \<Rightarrow> state" where
  "showInlineSpinner k s = upd_field k (\<lambda>f. f\<lparr>spinner := True\<rparr>) s"

definition removeNoResultsMessage :: "FieldKey \<Rightarrow> state \<Rightarrow> state" where
  "removeNoResultsMessage k s = upd_field k (\<lambda>f. f\<lparr>no_results := None\<rparr>) s"

definition quoted :: "string \<Rightarrow> string" where
  "quoted t = [CHR 0x22] @ t @ [CHR 0x22]"

definition showNoResultsMessage :: "FieldKey \<Rightarrow> string \<Rightarrow> string \<Rightarrow> state \<Rightarrow> state" where
  "showNoResultsMessage k queryText searchType s =
     upd_field k (\<lambda>f. f\<lparr>no_results := Some
       (if searchType = ''name'' then
          ''No Official Establishment Name matches '' @ quoted queryText @ ''.''
        else if searchType = ''code'' then
          ''No Partner Early-Access Code matches '' @ quoted queryText @ ''.''
        else ''No results found for '' @ quoted queryText @ ''.'')\<rparr>) s"

definition removeInlineErrorMessage :: "FieldKey \<Rightarrow> state \<Rightarrow> state" where
  "removeInlineErrorMessage k s = upd_field k (\<lambda>f. f\<lparr>inline_error := None\<rparr>) s"

definition showInlineErrorMessage :: "FieldKey \<Rightarrow> string \<Rightarrow> state \<Rightarrow> state" where
  "showInlineErrorMessage k message s = upd_field k (\<lambda>f. f\<lparr>inline_error := Some message\<rparr>) s"

text \<open>The message of the two \<^verbatim>\<open>catch\<close> branches, chosen by \<^verbatim>\<open>navigator.onLine\<close>.\<close>

definition fetch_error_message :: "state \<Rightarrow> string" where
  "fetch_error_message s =
     (if navigator_offline s
      then ''You appear to be offline. Check your connection and try again.''
      else ''Something went wrong fetching results. Please try again.'')"

subsection \<open>Resetting, locking and modes\<close>

text \<open>
  \<^verbatim>\<open>resetField\<close>: \<^verbatim>\<open>element = field.input || field.select\<close> gets the value \<^verbatim>\<open>''\<close>, and a
  select, when there is one, gets \<^verbatim>\<open>selectedIndex = 0\<close> (the \<^verbatim>\<open>change\<close> event it dispatches
  has no listener in this code).
\<close>

definition resetField :: "field \<Rightarrow> field" where
  "resetField f =
     (case input_value f of
        Some _ \<Rightarrow>
          (case fld_select f of
             None \<Rightarrow> f\<lparr>input_value := Some []\<rparr>
           | Some sel \<Rightarrow> f\<lparr>input_value := Some [], fld_select := Some (select_set_index 0 sel)\<rparr>)
      | None \<Rightarrow>
          (case fld_select f of
             None \<Rightarrow> f
           | Some sel \<Rightarrow>
               f\<lparr>fld_select := Some (select_set_index 0 (select_set_value [] sel))\<rparr>))"

definition resetFields :: "FieldKey list \<Rightarrow> state \<Rightarrow> state" where
  "resetFields exclusions s =
     s\<lparr>form_fields := (\<lambda>k. if k \<in> set exclusions then form_fields s k
                       else map_option resetField (form_fields s k))\<rparr>"

definition updateFormSubmitState :: "state \<Rightarrow> state" where
  "updateFormSubmitState s =
     (case formEl s of
        None \<Rightarrow> s
      | Some submits \<Rightarrow>
          (let enabled = truthy (sel_id (lastSelectedEstablishment s))
           in s\<lparr>formEl := Some (map (\<lambda>btn. btn\<lparr>disabled := \<not> enabled,
                        btn_aria_disabled := (if \<not> enabled then ''true'' else ''false'')\<rparr>)
                      submits)\<rparr>))"

definition resetDependentFields :: "FieldKey list \<Rightarrow> state \<Rightarrow> state" where
  "resetDependentFields exclusions s =
     (let s1 = resetFields exclusions s;
          s2 = (if customEstablishmentName \<notin> set exclusions
                then set_input customEstablishmentName [] s1 else s1);
          s3 = s2\<lparr>lastSelectedEstablishment := \<lparr>sel_id = Null, sel_name = Null\<rparr>\<rparr>
      in updateFormSubmitState s3)"

definition hideElements :: "FieldKey list \<Rightarrow> state \<Rightarrow> state" where
  "hideElements fieldNames s =
     fold (\<lambda>fieldName. upd_field fieldName (\<lambda>f. f\<lparr>display_none := True\<rparr>)) fieldNames s"

text \<open>
  \<^verbatim>\<open>preventEdit\<close>: nothing without a select or an input; otherwise the element is locked
  (\<^verbatim>\<open>aria-disabled = 'true'\<close>, pointer events off, dimmed).
\<close>

definition preventEdit :: "field \<Rightarrow> field" where
  "preventEdit f =
     (if fld_select f = None \<and> input_value f = None then f else f\<lparr>aria_disabled := True\<rparr>)"

definition preventInteraction :: "FieldKey list \<Rightarrow> state \<Rightarrow> state" where
  "preventInteraction fieldNames s =
     fold (\<lambda>fieldName. upd_field fieldName preventEdit) fieldNames s"

text \<open>\<^verbatim>\<open>MODES[mode] || { hide: [], prevent: [] }\<close>\<close>

definition config_of :: "string \<Rightarrow> mode_config" where
  "config_of mode = (case MODES mode of None \<Rightarrow> \<lparr>hide = [], prevent = []\<rparr> | Some c \<Rightarrow> c)"

definition setMode :: "string \<Rightarrow> state \<Rightarrow> state" where
  "setMode mode s =
     (let s1 = s\<lparr>currentMode := mode\<rparr>;
          config = config_of mode
      in preventInteraction (prevent config) (hideElements (hide config) s1))"

text \<open>
  \<^verbatim>\<open>initializeFields\<close> rebuilds \<^verbatim>\<open>fields\<close> from the document and re-applies the current
  mode. The scan of the document is not part of the model: its result is the parameter.
\<close>

definition initializeFields :: "(FieldKey \<Rightarrow> field option) \<Rightarrow> state \<Rightarrow> state" where
  "initializeFields scan s = setMode (currentMode s) (s\<lparr>form_fields := scan\<rparr>)"

text \<open>The \<^verbatim>\<open>preventList\<close> that \<^verbatim>\<open>clearAndResetForm\<close> computes from the current mode.\<close>

definition preventList_of :: "string \<Rightarrow> FieldKey list" where
  "preventList_of mode =
     (if mode = ''Partner Early-Access Code Lookup''
      then [establishmentType, partnerStatus, awardLevel, dutiesAndTaxes,
            officialEstablishmentName]
      else [establishmentType, partnerStatus, awardLevel, dutiesAndTaxes])"

text \<open>
  \<^verbatim>\<open>clearAndResetForm\<close>: reset every field, remove the inline messages of every wrapper
  (the length help text of the code field is not among them), lock the fields of the
  \<^verbatim>\<open>preventList\<close>, and outside the code mode empty the name input once more.
\<close>

definition clearAndResetForm :: "state \<Rightarrow> state" where
  "clearAndResetForm s =
     (let s1 = resetFields [] s;
          s2 = s1\<lparr>form_fields := (\<lambda>k. map_option
                  (\<lambda>f. f\<lparr>inline_error := None, no_results := None, spinner := False,
                         mismatch_text := None\<rparr>) (form_fields s1 k))\<rparr>;
          s3 = preventInteraction (preventList_of (currentMode s2)) s2
      in if currentMode s3 \<noteq> ''Partner Early-Access Code Lookup'' \<and> autocompleteInstance s3
            \<and> has_input officialEstablishmentName s3
         then set_input officialEstablishmentName [] s3
         else s3)"

subsection \<open>The option matcher and the selection resolver\<close>

text \<open>
  The label text shown in the mismatch messages:
  \<^verbatim>\<open>rawLabelText.replace(/\(required\)/i, '').replace(/:$/, '').trim() || 'Field'\<close>, where
  \<^verbatim>\<open>rawLabelText\<close> is the label's text, or \<^verbatim>\<open>'Field'\<close> when that is empty.
\<close>

fun strip_required :: "string \<Rightarrow> string" where
  "strip_required [] = []"
| "strip_required (c # cs) =
     (if startsWith (toLowerCase (c # cs)) ''(required)'' then drop 10 (c # cs)
      else c # strip_required cs)"

definition strip_colon :: "string \<Rightarrow> string" where
  "strip_colon t = (if t \<noteq> [] \<and> last t = CHR '':'' then butlast t else t)"

definition clean_label :: "string \<Rightarrow> string" where
  "clean_label textContent =
     (let rawLabelText = (if textContent = [] then ''Field'' else textContent);
          labelText = trim (strip_colon (strip_required rawLabelText))
      in if labelText = [] then ''Field'' else labelText)"

definition mismatch_message :: "string \<Rightarrow> string \<Rightarrow> string" where
  "mismatch_message establishmentValue labelText =
     ''This product does not meet your establishment details. This product does not have ''
     @ quoted establishmentValue @ '' for the option '' @ quoted labelText @ ''.''"

text \<open>
  The three candidate strings of an option and the test of \<^verbatim>\<open>options.find\<close>, for the lower
  case target \<open>tv\<close>: \<^verbatim>\<open>[o.text, o.value, o.dataName].some(v => v.toLowerCase() === tv ||
  v.toLowerCase().includes(tv))\<close>.
\<close>

definition candidates :: "option_el \<Rightarrow> string list" where
  "candidates opt =
     [trim (opt_text opt), opt_value opt,
      trim (case opt_data_name opt of None \<Rightarrow> [] | Some d \<Rightarrow> d)]"

definition option_matches :: "string \<Rightarrow> option_el \<Rightarrow> bool" where
  "option_matches tv opt =
     list_ex (\<lambda>v. toLowerCase v = tv \<or> js_includes (toLowerCase v) tv) (candidates opt)"

text \<open>The inline mismatch message in the wrapper of the field \<open>k\<close>, if any.\<close>

definition shown_mismatch :: "FieldKey \<Rightarrow> state \<Rightarrow> string option" where
  "shown_mismatch k s = (case form_fields s k of None \<Rightarrow> None | Some f \<Rightarrow> mismatch_text f)"

text \<open>
  \<^verbatim>\<open>setSelectValue(selectElement, targetValue)\<close>, for the select of the field \<open>k\<close> (every
  call in the code passes \<^verbatim>\<open>fields[k].select\<close>; its closest \<^verbatim>\<open>.form-item\<close> is the field's
  wrapper). A target that is truthy but not a string has no \<^verbatim>\<open>toLowerCase\<close>: the call throws.
\<close>

definition setSelectValue :: "FieldKey \<Rightarrow> jsval \<Rightarrow> state \<Rightarrow> bool outcome \<times> state" where
  "setSelectValue k targetValue s =
     (case form_fields s k of
        None \<Rightarrow> (Returned False, s)
      | Some f \<Rightarrow>
          (case fld_select f of
             None \<Rightarrow> (Returned False, s)
           | Some sel \<Rightarrow>
               if \<not> truthy targetValue then (Returned False, s)
               else
                 (case targetValue of
                    Str t \<Rightarrow>
                      (case find_first (option_matches (toLowerCase t)) (sel_options sel) of
                         Some (i, matched) \<Rightarrow>
                           (Returned True,
                            upd_field k (\<lambda>f. f\<lparr>fld_select :=
                                Some ((select_set_value (opt_value matched) sel)
                                        \<lparr>selectedIndex := int i\<rparr>),
                              mismatch_text := None\<rparr>) s)
                       | None \<Rightarrow>
                           (let labelText = clean_label (label_text f);
                                s1 = upd_field k
                                  (\<lambda>f. f\<lparr>mismatch_text := Some (mismatch_message t labelText)\<rparr>) s;
                                s2 = (if \<not> mismatchAlertDispatched s1
                                      then s1\<lparr>mismatchAlertDispatched := True,
                                              alerts := alerts s1 @
                                                [\<lparr>notice_label = labelText, notice_value = t,
                                                  notice_inline = shown_mismatch k s1\<rparr>]\<rparr>
                                      else s1)
                            in (Returned False, clearAndResetForm s2)))
                  | _ \<Rightarrow> (Threw, s))))"

text \<open>The timer that ends the cooldown of the blocking notice, 1200 ms after it.\<close>

definition cooldown_elapsed :: "state \<Rightarrow> state" where
  "cooldown_elapsed s = s\<lparr>mismatchAlertDispatched := False\<rparr>"

text \<open>
  \<^verbatim>\<open>updateSelectElements(name, partnerStatus, awardLevel, dutiesAndTaxes)\<close>: the custom name
  and three selects; an exception is logged and thrown again.
\<close>

definition updateSelectElements ::
  "jsval \<Rightarrow> jsval \<Rightarrow> jsval \<Rightarrow> jsval \<Rightarrow> state \<Rightarrow> unit outcome \<times> state" where
  "updateSelectElements officialName partnerStatusV awardLevelV dutiesAndTaxesV s =
     (let s1 = set_input customEstablishmentName (js_string officialName) s;
          (r2, s2) = (if has_select partnerStatus s1
                      then setSelectValue partnerStatus partnerStatusV s1
                      else (Returned False, s1))
      in if r2 = Threw then (Threw, s2)
         else
           (let (r3, s3) = (if has_select awardLevel s2
                            then setSelectValue awardLevel awardLevelV s2
                            else (Returned False, s2))
            in if r3 = Threw then (Threw, s3)
               else
                 (let (r4, s4) = (if has_select dutiesAndTaxes s3
                                  then setSelectValue dutiesAndTaxes dutiesAndTaxesV s3
                                  else (Returned False, s3))
                  in if r4 = Threw then (Threw, s4) else (Returned (), s4))))"

definition dropdownMappings :: "(string \<times> FieldKey) list" where
  "dropdownMappings =
     [(''Award Level'', awardLevel), (''Establishment Type'', establishmentType),
      (''Partner Status'', partnerStatus), (''Duties & Taxes'', dutiesAndTaxes)]"

text \<open>The \<^verbatim>\<open>forEach\<close> over \<^verbatim>\<open>dropdownMappings\<close>; an exception ends the loop.\<close>

fun set_dropdowns ::
  "(string \<times> FieldKey) list \<Rightarrow> airtable_record \<Rightarrow> state \<Rightarrow> unit outcome \<times> state" where
  "set_dropdowns [] record s = (Returned (), s)"
| "set_dropdowns ((fieldName, configName) # rest) record s =
     (if truthy (field_of record fieldName) \<and> has_select configName s
      then (case setSelectValue configName (field_of record fieldName) s of
              (Threw, s') \<Rightarrow> (Threw, s')
            | (Returned _, s') \<Rightarrow> set_dropdowns rest record s')
      else set_dropdowns rest record s)"

definition handleRedemptionCodeSelection :: "airtable_record \<Rightarrow> state \<Rightarrow> unit outcome \<times> state" where
  "handleRedemptionCodeSelection record s =
     (let name = field_of record ''Official Establishment Name'';
          s1 = (if truthy name
                then set_input customEstablishmentName (js_string name)
                       (set_input officialEstablishmentName (js_string name) s)
                else s)
      in case set_dropdowns dropdownMappings record s1 of
           (Threw, s2) \<Rightarrow> (Threw, s2)
         | (Returned _, s2) \<Rightarrow>
             updateSelectElements
               (js_or name (Str []))
               (js_or (field_of record ''Partner Status'') (Str []))
               (js_or (field_of record ''Award Level'') (Str []))
               (js_or (field_of record ''Duties & Taxes'') (Str []))
               s2)"

subsection \<open>The handlers of the establishment name field\<close>

text \<open>
  \<^verbatim>\<open>onSelectItem(item)\<close> of the autocomplete widget. An exception of the resolver leaves the
  handler before the selection is recorded.
\<close>

definition onSelectItem :: "suggestion \<Rightarrow> state \<Rightarrow> state" where
  "onSelectItem item s =
     (case data item of
        None \<Rightarrow> s
      | Some d \<Rightarrow>
          (let s1 = removeInlineErrorMessage officialEstablishmentName
                      (removeNoResultsMessage officialEstablishmentName s)
           in case handleRedemptionCodeSelection d s1 of
                (Threw, s2) \<Rightarrow> s2
              | (Returned _, s2) \<Rightarrow>
                  updateFormSubmitState
                    (s2\<lparr>lastSelectedEstablishment :=
                         \<lparr>sel_id = js_or (rec_id d) Null,
                          sel_name = js_or (js_or (field_of d ''Official Establishment Name'')
                                                  (input_of officialEstablishmentName s2)) Null\<rparr>\<rparr>)))"

text \<open>What the user does to a text input before a handler runs.\<close>

definition user_types :: "FieldKey \<Rightarrow> string \<Rightarrow> state \<Rightarrow> state" where
  "user_types k v s = set_input k v s"

text \<open>
  The debounced \<^verbatim>\<open>input\<close> listener and the \<^verbatim>\<open>blur\<close> listener of the name input;
  \<^verbatim>\<open>current = (field.value || '').trim()\<close>. \<^verbatim>\<open>addEstablishmentNameListener\<close> adds both to the
  name input right after \<^verbatim>\<open>new window.Autocomplete(...)\<close> has succeeded, and nothing adds them
  again later: they exist exactly when \<^verbatim>\<open>autocompleteInstance\<close> is set, which requires the
  field to have an input. The listeners stay on the input they were added to; the model
  reads the input bound under the key, which is that element unless a re-scan has bound
  another one.
\<close>

definition current_name :: "state \<Rightarrow> string" where
  "current_name s = trim (js_string (js_or (input_of officialEstablishmentName s) (Str [])))"

definition name_input_listener :: "state \<Rightarrow> state" where
  "name_input_listener s =
     (if \<not> autocompleteInstance s \<or> \<not> has_input officialEstablishmentName s then s
      else
        (let current = current_name s;
             s1 = (if truthy (sel_name (lastSelectedEstablishment s))
                      \<and> Str current \<noteq> sel_name (lastSelectedEstablishment s)
                   then resetDependentFields [officialEstablishmentName, redemptionCode] s
                   else s)
         in if current = []
            then resetDependentFields [officialEstablishmentName, redemptionCode] s1
            else s1))"

definition name_blur_listener :: "state \<Rightarrow> state" where
  "name_blur_listener s =
     (if \<not> autocompleteInstance s \<or> \<not> has_input officialEstablishmentName s then s
      else
        (let current = current_name s
         in if current = [] \<or> (truthy (sel_name (lastSelectedEstablishment s))
                \<and> Str current \<noteq> sel_name (lastSelectedEstablishment s))
            then resetDependentFields [officialEstablishmentName, redemptionCode] s
            else s))"

subsection \<open>The query gateway\<close>

text \<open>
  \<^verbatim>\<open>controller.abort()\<close> and \<^verbatim>\<open>new AbortController()\<close>. Aborting marks the controller; what
  the pending \<^verbatim>\<open>fetch\<close> of its signal then does is the environment's part (see \<open>settle\<close>).
\<close>

definition abort_controller :: "nat option \<Rightarrow> state \<Rightarrow> state" where
  "abort_controller c s =
     (case c of None \<Rightarrow> s | Some n \<Rightarrow> s\<lparr>aborted := n # aborted s\<rparr>)"

definition cacheKey_of :: "string \<Rightarrow> string \<Rightarrow> string" where
  "cacheKey_of field cleanQuery = field @ ''::'' @ toLowerCase cleanQuery"

text \<open>
  \<^verbatim>\<open>queryAirtableContains(field, query, signal)\<close> up to its first suspension: \<open>Some data\<close>
  when it returns without the network (empty query, cache hit), \<open>None\<close> when it has issued
  the \<^verbatim>\<open>fetch\<close> and waits. \<open>chan\<close> and \<open>text\<close> record who waits for the result.
\<close>

definition queryAirtableContains ::
  "string \<Rightarrow> string \<Rightarrow> nat \<Rightarrow> channel \<Rightarrow> string \<Rightarrow> state \<Rightarrow> query_data option \<times> state" where
  "queryAirtableContains field query signal chan text s =
     (let cleanQuery = trim query
      in if cleanQuery = [] then (Some \<lparr>records = Some []\<rparr>, s)
         else
           (let (cached, cache') = cacheGet (airtableCache s) (cacheKey_of field cleanQuery);
                s1 = s\<lparr>airtableCache := cache'\<rparr>
            in case cached of
                 Some d \<Rightarrow> (Some d, s1)
               | None \<Rightarrow>
                   (let req = \<lparr>req_controller = signal, req_channel = chan, req_field = field,
                              req_query = cleanQuery, req_text = text\<rparr>
                    in (None, s1\<lparr>pending := pending s1 @ [req],
                                  network_log := network_log s1 @ [req]\<rparr>))))"

text \<open>
  How a request in flight ends: the response is ok and its JSON body is \<open>data\<close>; or the
  response is not ok (or the network fails), which throws an \<^verbatim>\<open>Error\<close>; or the \<^verbatim>\<open>fetch\<close>
  rejects with an \<^verbatim>\<open>AbortError\<close>.
\<close>

datatype settlement = Resolved query_data | Failed | AbortError

text \<open>
  What a caller of \<^verbatim>\<open>queryAirtableContains\<close> receives: the data (stored in the cache first
  when it came from the network), an ordinary error, or an abort error.
\<close>

definition queryAirtableContains_resume ::
  "request \<Rightarrow> settlement \<Rightarrow> state \<Rightarrow> settlement \<times> state" where
  "queryAirtableContains_resume req how s =
     (case how of
        Resolved d \<Rightarrow>
          (Resolved d,
           s\<lparr>airtableCache :=
               cacheSet MAX_CACHE (airtableCache s) (cacheKey_of (req_field req) (req_query req)) d\<rparr>)
      | Failed \<Rightarrow> (Failed, s)
      | AbortError \<Rightarrow> (AbortError, s))"

subsection \<open>The code lookup\<close>

definition code_error_branch :: "state \<Rightarrow> state" where
  "code_error_branch s =
     resetDependentFields [redemptionCode, officialEstablishmentName]
       (showInlineErrorMessage redemptionCode (fetch_error_message s)
          (removeNoResultsMessage redemptionCode s))"

text \<open>
  The rest of \<^verbatim>\<open>handleInput\<close> after \<^verbatim>\<open>await queryAirtableContains(...)\<close>: the \<^verbatim>\<open>try\<close> body,
  the \<^verbatim>\<open>catch\<close> (which ignores abort errors) and the \<^verbatim>\<open>finally\<close>. \<^verbatim>\<open>data.records.length\<close>
  throws when \<^verbatim>\<open>records\<close> is missing.
\<close>

definition code_lookup_continue :: "string \<Rightarrow> settlement \<Rightarrow> state \<Rightarrow> state" where
  "code_lookup_continue code how s =
     removeInlineSpinner redemptionCode
       (case how of
          Resolved d \<Rightarrow>
            (case records d of
               None \<Rightarrow> code_error_branch s
             | Some [] \<Rightarrow>
                 resetDependentFields [redemptionCode, officialEstablishmentName]
                   (showNoResultsMessage redemptionCode code ''code'' s)
             | Some (r # rs) \<Rightarrow>
                 (case handleRedemptionCodeSelection r
                         (removeInlineErrorMessage redemptionCode
                            (removeNoResultsMessage redemptionCode s)) of
                    (Threw, s1) \<Rightarrow> code_error_branch s1
                  | (Returned _, s1) \<Rightarrow>
                      updateFormSubmitState
                        (s1\<lparr>lastSelectedEstablishment :=
                             \<lparr>sel_id = js_or (rec_id r) Null,
                              sel_name =
                                js_or (js_or (field_of r ''Official Establishment Name'')
                                             (input_of officialEstablishmentName s1)) Null\<rparr>\<rparr>)))
        | Failed \<Rightarrow> code_error_branch s
        | AbortError \<Rightarrow> s)"

definition code_length_help :: string where
  "code_length_help =
     ''Please check Partner Early-Access Code length. It must be exactly 8 characters.''"

text \<open>
  \<^verbatim>\<open>handleInput\<close>, the debounced \<^verbatim>\<open>input\<close> listener of the code input, up to its first
  suspension. It exists only when the field has an input. When the query returns without
  the network the rest of the handler runs at once.
\<close>

definition handleInput :: "state \<Rightarrow> state" where
  "handleInput s =
     (if \<not> has_input redemptionCode s then s
      else
        (let code = trim (js_string (input_of redemptionCode s));
             s1 = resetFields [redemptionCode] s;
             s2 = upd_field redemptionCode (\<lambda>f. f\<lparr>help_text := None\<rparr>)
                    (removeInlineErrorMessage redemptionCode
                       (removeNoResultsMessage redemptionCode s1));
             s3 = abort_controller (codeLookupController s2) s2;
             s4 = (if length code \<noteq> 8
                   then resetDependentFields [redemptionCode, officialEstablishmentName]
                          (upd_field redemptionCode
                             (\<lambda>f. f\<lparr>help_text := Some code_length_help\<rparr>) s3)
                   else s3)
         in if length code = 8
            then
              (let s5 = showInlineSpinner redemptionCode s4;
                   c = controllers s5;
                   s6 = s5\<lparr>controllers := Suc c, codeLookupController := Some c\<rparr>
               in case queryAirtableContains ''Redemption Code'' code c CodeLookup code s6 of
                    (Some d, s7) \<Rightarrow> code_lookup_continue code (Resolved d) s7
                  | (None, s7) \<Rightarrow> s7)
            else s4))"

subsection \<open>The name search\<close>

definition deliver :: "suggestion list \<Rightarrow> state \<Rightarrow> state" where
  "deliver results s = s\<lparr>callback_log := callback_log s @ [results]\<rparr>"

text \<open>The \<^verbatim>\<open>then\<close> and \<^verbatim>\<open>catch\<close> handlers of the autocomplete source.\<close>

definition name_search_continue :: "string \<Rightarrow> settlement \<Rightarrow> state \<Rightarrow> state" where
  "name_search_continue query how s =
     (case how of
        Resolved d \<Rightarrow>
          (let results = searchAirtableForAutocomplete d;
               s1 = removeInlineErrorMessage officialEstablishmentName
                      (removeInlineSpinner officialEstablishmentName s);
               s2 = (if results = []
                     then showNoResultsMessage officialEstablishmentName query ''name'' s1
                     else removeNoResultsMessage officialEstablishmentName s1)
           in deliver results s2)
      | AbortError \<Rightarrow> removeInlineSpinner officialEstablishmentName s
      | Failed \<Rightarrow>
          deliver []
            (showInlineErrorMessage officialEstablishmentName (fetch_error_message s)
               (removeNoResultsMessage officialEstablishmentName
                  (removeInlineSpinner officialEstablishmentName s))))"

text \<open>
  The debounced \<^verbatim>\<open>source(query, callback)\<close> of the autocomplete widget, up to its first
  suspension.
\<close>

definition name_source :: "string \<Rightarrow> state \<Rightarrow> state" where
  "name_source query s =
     (if \<not> has_input officialEstablishmentName s then s
      else
        (let s1 = showInlineSpinner officialEstablishmentName
                    (removeInlineErrorMessage officialEstablishmentName
                       (removeNoResultsMessage officialEstablishmentName s))
         in if length query < 2
            then deliver []
                   (removeInlineErrorMessage officialEstablishmentName
                      (removeNoResultsMessage officialEstablishmentName
                         (removeInlineSpinner officialEstablishmentName s1)))
            else
              (let s2 = abort_controller (nameSearchController s1) s1;
                   c = controllers s2;
                   s3 = s2\<lparr>controllers := Suc c, nameSearchController := Some c\<rparr>
               in case queryAirtableContains ''Official Establishment Name'' query c
                         NameSearch query s3 of
                    (Some d, s4) \<Rightarrow> name_search_continue query (Resolved d) s4
                  | (None, s4) \<Rightarrow> s4)))"

text \<open>
  The request at position \<open>i\<close> of the requests in flight ends in the way \<open>how\<close>, and the
  handler that waits for it continues. Nothing here looks at whether the request's
  controller was aborted: the code has no such test.
\<close>

definition settle :: "nat \<Rightarrow> settlement \<Rightarrow> state \<Rightarrow> state" where
  "settle i how s =
     (if i < length (pending s) then
        (let req = pending s ! i;
             s1 = s\<lparr>pending := take i (pending s) @ drop (Suc i) (pending s)\<rparr>;
             (res, s2) = queryAirtableContains_resume req how s1
         in case req_channel req of
              NameSearch \<Rightarrow> name_search_continue (req_text req) res s2
            | CodeLookup \<Rightarrow> code_lookup_continue (req_text req) res s2)
      else s)"

subsection \<open>Initialisation and the public control surface\<close>

definition initial_state :: state where
  "initial_state =
     \<lparr>form_fields = (\<lambda>k. None),
      currentMode = ''Partner Early-Access Code Lookup'',
      autocompleteInstance = False,
      lastSelectedEstablishment = \<lparr>sel_id = Null, sel_name = Null\<rparr>,
      nameSearchController = None,
      codeLookupController = None,
      mismatchAlertDispatched = False,
      formEl = None,
      airtableCache = [],
      navigator_offline = False,
      controllers = 0,
      aborted = [],
      pending = [],
      network_log = [],
      alerts = [],
      callback_log = []\<rparr>"

text \<open>
  \<^verbatim>\<open>initializeSystem\<close>: scan the fields, install the listeners (the autocomplete instance is
  created when the name field has an input and the widget class is available), remember
  the form, given by its submit buttons, and compute the submit state.
\<close>

definition initializeSystem ::
  "(FieldKey \<Rightarrow> field option) \<Rightarrow> bool \<Rightarrow> submit_button list option \<Rightarrow> state \<Rightarrow> state" where
  "initializeSystem scan autocomplete_available form s =
     (let s1 = initializeFields scan s;
          s2 = (if \<not> autocompleteInstance s1 \<and> has_input officialEstablishmentName s1
                    \<and> autocomplete_available
                then s1\<lparr>autocompleteInstance := True\<rparr> else s1)
      in case form of
           None \<Rightarrow> s2
         | Some submits \<Rightarrow> updateFormSubmitState (s2\<lparr>formEl := Some submits\<rparr>))"

text \<open>
  Everything that can happen to an initialised controller: the user's edits and the
  listeners they trigger, the widget's calls, the ends of requests, the cooldown timer, a
  change of the network state, and the three operations of \<^verbatim>\<open>window.FTGForm\<close>.
\<close>

datatype event =
  UserTypes FieldKey string
  | NameInput
  | NameBlur
  | NameSource string
  | SelectItem suggestion
  | CodeInput
  | Settle nat settlement
  | CooldownElapsed
  | Online bool
  | FTGForm_reinitialize "FieldKey \<Rightarrow> field option"
  | FTGForm_reset
  | FTGForm_setMode string

fun step :: "state \<Rightarrow> event \<Rightarrow> state" where
  "step s (UserTypes k v) = user_types k v s"
| "step s NameInput = name_input_listener s"
| "step s NameBlur = name_blur_listener s"
| "step s (NameSource query) = name_source query s"
| "step s (SelectItem item) = onSelectItem item s"
| "step s CodeInput = handleInput s"
| "step s (Settle i how) = settle i how s"
| "step s CooldownElapsed = cooldown_elapsed s"
| "step s (Online b) = s\<lparr>navigator_offline := \<not> b\<rparr>"
| "step s (FTGForm_reinitialize scan) = initializeFields scan s"
| "step s FTGForm_reset = clearAndResetForm s"
| "step s (FTGForm_setMode mode) = setMode mode s"

definition run :: "state \<Rightarrow> event list \<Rightarrow> state" where
  "run s evs = foldl step s evs"

subsection \<open>Notions used to state the properties\<close>

text \<open>\<open>s'\<close> differs from \<open>s\<close> at most in the fields.\<close>

definition fields_only :: "state \<Rightarrow> state \<Rightarrow> bool" where
  "fields_only s s' = (s' = s\<lparr>form_fields := form_fields s'\<rparr>)"

text \<open>\<open>s'\<close> differs from \<open>s\<close> at most in the fields, the cooldown flag and the notices shown.\<close>

definition resolver_only :: "state \<Rightarrow> state \<Rightarrow> bool" where
  "resolver_only s s' =
     (s' = s\<lparr>form_fields := form_fields s',
             mismatchAlertDispatched := mismatchAlertDispatched s',
             alerts := alerts s'\<rparr>)"

text \<open>\<open>t\<close> occurs in \<open>v\<close> as a contiguous substring.\<close>

definition is_substring :: "string \<Rightarrow> string \<Rightarrow> bool" where
  "is_substring t v = (\<exists>p q. v = p @ t @ q)"

text \<open>
  What entering a mode does to the field bound under \<open>k\<close>: it is hidden when the mode hides
  it and locked when the mode locks it and it has a control; nothing is shown or unlocked.
\<close>

definition mode_effect :: "string \<Rightarrow> FieldKey \<Rightarrow> field \<Rightarrow> field" where
  "mode_effect mode k f =
     f\<lparr>display_none := display_none f \<or> k \<in> set (hide (config_of mode)),
       aria_disabled := aria_disabled f \<or>
          (k \<in> set (prevent (config_of mode)) \<and> \<not> (fld_select f = None \<and> input_value f = None))\<rparr>"

text \<open>What \<^verbatim>\<open>clearAndResetForm\<close> does to the field bound under \<open>k\<close> in the mode \<open>mode\<close>.\<close>

definition reset_effect :: "string \<Rightarrow> FieldKey \<Rightarrow> field \<Rightarrow> field" where
  "reset_effect mode k f =
     (if k \<in> set (preventList_of mode) then preventEdit else id)
       ((resetField f)\<lparr>inline_error := None, no_results := None, spinner := False,
                       mismatch_text := None\<rparr>)"

subsection \<open>An example form\<close>

definition text_field :: "string \<Rightarrow> field" where
  "text_field lbl =
     \<lparr>label_text = lbl, input_value = Some [], fld_select = None, display_none = False,
      aria_disabled = False, mismatch_text = None, help_text = None, no_results = None,
      inline_error = None, spinner = False\<rparr>"

definition select_field :: "string \<Rightarrow> string list \<Rightarrow> field" where
  "select_field lbl texts =
     \<lparr>label_text = lbl, input_value = None,
      fld_select = Some \<lparr>sel_options =
          map (\<lambda>t. \<lparr>opt_text = t, opt_value = t, opt_data_name = None\<rparr>) texts,
        selectedIndex = 0\<rparr>,
      display_none = False, aria_disabled = False, mismatch_text = None, help_text = None,
      no_results = None, inline_error = None, spinner = False\<rparr>"

definition example_fields :: "FieldKey \<Rightarrow> field option" where
  "example_fields =
     [redemptionCode \<mapsto> text_field ''Partner Early-Access Code'',
      officialEstablishmentName \<mapsto> text_field ''Official Establishment Name (required)'',
      customEstablishmentName \<mapsto> text_field ''Custom Establishment Name'',
      establishmentType \<mapsto> select_field ''Establishment Type'' [[], ''Hotel'', ''Spa''],
      partnerStatus \<mapsto> select_field ''Partner Status'' [[], ''Partner'', ''Non-Partner''],
      awardLevel \<mapsto> select_field ''Award Level:'' [[], ''Silver Tier'', ''Gold Tier''],
      dutiesAndTaxes \<mapsto> select_field ''Duties & Taxes'' [[], ''Excluded'']]"

definition example_state :: state where
  "example_state =
     initializeSystem example_fields True
       (Some [\<lparr>disabled = False, btn_aria_disabled = ''false''\<rparr>]) initial_state"

subsection \<open>The match of the option matcher, in the words of the specification\<close>

text \<open>
  A candidate string \<open>v\<close> matches the target \<open>t\<close> when, ignoring case, it equals \<open>t\<close> or
  contains \<open>t\<close> as a substring; an option matches when its visible text (its text content
  without surrounding white space), its value or its \<^verbatim>\<open>data-name\<close> attribute does.
\<close>

definition equals_or_contains :: "string \<Rightarrow> string \<Rightarrow> bool" where
  "equals_or_contains v t =
     (toLowerCase v = toLowerCase t \<or> is_substring (toLowerCase t) (toLowerCase v))"

definition claimed_match :: "string \<Rightarrow> option_el \<Rightarrow> bool" where
  "claimed_match t opt =
     (equals_or_contains (trim (opt_text opt)) t
      \<or> equals_or_contains (opt_value opt) t
      \<or> (case opt_data_name opt of None \<Rightarrow> equals_or_contains [] t
          | Some d \<Rightarrow> equals_or_contains (trim d) t))"

text \<open>The index of the selected option of the select of field \<open>k\<close>.\<close>

definition selected_index :: "FieldKey \<Rightarrow> state \<Rightarrow> int option" where
  "selected_index k s =
     (case form_fields s k of
        None \<Rightarrow> None
      | Some f \<Rightarrow> map_option selectedIndex (fld_select f))"

definition gold_tier :: option_el where
  "gold_tier = \<lparr>opt_text = ''Gold Tier'', opt_value = ''Gold Tier'', opt_data_name = None\<rparr>"

definition award_select :: select_el where
  "award_select =
     \<lparr>sel_options = map (\<lambda>t. \<lparr>opt_text = t, opt_value = t, opt_data_name = None\<rparr>)
                         [[], ''Silver Tier'', ''Gold Tier''],
      selectedIndex = 0\<rparr>"

definition award_field :: field where
  "award_field =
     \<lparr>label_text = ''Award Level:'', input_value = None, fld_select = Some award_select,
      display_none = False, aria_disabled = True, mismatch_text = None, help_text = None,
      no_results = None, inline_error = None, spinner = False\<rparr>"

subsection \<open>The submit state as a function of the last selection\<close>

text \<open>\<open>s'\<close> has the last selection and the submit buttons of \<open>s\<close>.\<close>

definition selection_kept :: "state \<Rightarrow> state \<Rightarrow> bool" where
  "selection_kept s s' =
     (lastSelectedEstablishment s' = lastSelectedEstablishment s \<and> formEl s' = formEl s)"

text \<open>
  The identity of the last selection is \<^verbatim>\<open>null\<close> or a truthy value, and every submit button
  of the form is disabled exactly when it is \<^verbatim>\<open>null\<close>.
\<close>

definition submit_derived :: "state \<Rightarrow> bool" where
  "submit_derived s =
     ((sel_id (lastSelectedEstablishment s) = Null \<or> truthy (sel_id (lastSelectedEstablishment s)))
      \<and> (case formEl s of
            None \<Rightarrow> True
          | Some submits \<Rightarrow>
              list_all (\<lambda>btn. disabled btn = (sel_id (lastSelectedEstablishment s) = Null)
                            \<and> btn_aria_disabled btn =
                                (if sel_id (lastSelectedEstablishment s) = Null
                                 then ''true'' else ''false'')) submits))"

subsection \<open>An example selection\<close>

definition aman_record :: airtable_record where
  "aman_record =
     \<lparr>rec_id = Str ''rec1'',
      rec_fields = [(''Official Establishment Name'', Str ''Aman Tokyo''),
                    (''Award Level'', Str ''Gold'')]\<rparr>"

definition aman_item :: suggestion where
  "aman_item = \<lparr>label = Str ''Aman Tokyo'', sugg_value = Str ''Aman Tokyo'',
                 data = Some aman_record\<rparr>"

definition selected_state :: state where
  "selected_state = onSelectItem aman_item example_state"

definition edited_state :: state where
  "edited_state = user_types officialEstablishmentName ''Aman T'' selected_state"

subsection \<open>Requests\<close>

text \<open>\<open>s'\<close> has the request bookkeeping of \<open>s\<close>: controllers, aborts and requests.\<close>

definition requests_kept :: "state \<Rightarrow> state \<Rightarrow> bool" where
  "requests_kept s s' =
     (network_log s' = network_log s \<and> pending s' = pending s \<and> aborted s' = aborted s
      \<and> controllers s' = controllers s
      \<and> nameSearchController s' = nameSearchController s
      \<and> codeLookupController s' = codeLookupController s)"

text \<open>The request a code lookup issues for \<open>code\<close> in the state \<open>s\<close>.\<close>

definition code_request :: "state \<Rightarrow> string \<Rightarrow> request" where
  "code_request s code =
     \<lparr>req_controller = controllers s, req_channel = CodeLookup,
      req_field = ''Redemption Code'', req_query = code, req_text = code\<rparr>"





text \<open>The controller a channel currently holds.\<close>

definition current_controller :: "channel \<Rightarrow> state \<Rightarrow> nat option" where
  "current_controller ch s =
     (case ch of NameSearch \<Rightarrow> nameSearchController s | CodeLookup \<Rightarrow> codeLookupController s)"

text \<open>
  The requests in flight are listed in the order of their issue, which is the order of
  their controllers. Each was issued under the controller its channel holds now or under
  an older one, and in the second case that controller has been aborted. The controllers
  the channels hold are among those created so far.
\<close>

definition superseded_aborted :: "state \<Rightarrow> bool" where
  "superseded_aborted s =
     (list_all (\<lambda>r. case current_controller (req_channel r) s of
                      None \<Rightarrow> False
                    | Some c \<Rightarrow> req_controller r \<le> c
                        \<and> (req_controller r = c \<or> req_controller r \<in> set (aborted s)))
        (pending s)
      \<and> sorted_wrt (<) (map req_controller (pending s))
      \<and> (case nameSearchController s of None \<Rightarrow> True | Some c \<Rightarrow> c < controllers s)
      \<and> (case codeLookupController s of None \<Rightarrow> True | Some c \<Rightarrow> c < controllers s))"

text \<open>The field whose spinner a channel shows.\<close>

definition channel_field :: "channel \<Rightarrow> FieldKey" where
  "channel_field ch =
     (case ch of NameSearch \<Rightarrow> officialEstablishmentName | CodeLookup \<Rightarrow> redemptionCode)"

text \<open>The request a name search issues for \<open>query\<close> in the state \<open>s\<close>.\<close>

definition name_request :: "state \<Rightarrow> string \<Rightarrow> request" where
  "name_request s query =
     \<lparr>req_controller = controllers s, req_channel = NameSearch,
      req_field = ''Official Establishment Name'', req_query = trim query, req_text = query\<rparr>"

text \<open>Two codes are typed one after the other; neither lookup has ended.\<close>

definition two_lookups_state :: state where
  "two_lookups_state =
     run example_state
       [UserTypes redemptionCode ''ABCD1234'', CodeInput,
        UserTypes redemptionCode ''WXYZ5678'', CodeInput]"

subsection \<open>Further example states\<close>


text \<open>A record that carries a name and nothing else.\<close>

definition plain_record :: airtable_record where
  "plain_record =
     \<lparr>rec_id = Str ''rec1'',
      rec_fields = [(''Official Establishment Name'', Str ''Aman Tokyo'')]\<rparr>"


section \<open>Properties of the lookup cache\<close>

lemma map_set_absent: "k \<notin> fst ` set m \<Longrightarrow> map_set m k v = m @ [(k, v)]"
  by (induction m) auto

lemma keys_map_delete: "map fst (map_delete m k) = removeAll k (map fst m)"
  by (induction m) (auto simp: map_delete_def)

lemma map_delete_absent: "k \<notin> fst ` set m \<Longrightarrow> map_delete m k = m"
  by (induction m) (auto simp: map_delete_def)

lemma cacheSet_eq:
  assumes "distinct (map fst c)"
  shows "cacheSet cap c k v =
     (let c2 = map_delete c k @ [(k, v)] in if length c2 > cap then tl c2 else c2)"
proof -
  have c1: "(if map_has c k then map_delete c k else c) = map_delete c k"
    by (simp add: map_has_def map_delete_absent)
  have notin: "k \<notin> fst ` set (map_delete c k)"
    by (auto simp: map_delete_def)
  have c2: "map_set (map_delete c k) k v = map_delete c k @ [(k, v)]"
    using notin by (rule map_set_absent)
  have d: "distinct (map fst (map_delete c k @ [(k, v)]))"
    using assms notin by (simp add: keys_map_delete distinct_removeAll)
  have "(case map_delete c k @ [(k, v)] of [] \<Rightarrow> map_delete c k @ [(k, v)]
          | (first, _) # _ \<Rightarrow> map_delete (map_delete c k @ [(k, v)]) first)
        = tl (map_delete c k @ [(k, v)])"
  proof (cases "map_delete c k @ [(k, v)]")
    case Nil then show ?thesis by simp
  next
    case (Cons p rest)
    obtain a b where p: "p = (a, b)" by (cases p)
    from d Cons p have "a \<notin> fst ` set rest" by auto
    then have "map_delete rest a = rest" by (rule map_delete_absent)
    then show ?thesis using Cons p by (simp add: map_delete_def)
  qed
  then show ?thesis
    unfolding cacheSet_def Let_def c1 c2 map_size_def by simp
qed

lemma cacheGet_eq:
  assumes "distinct (map fst c)"
  shows "cacheGet c k =
     (case map_of c k of None \<Rightarrow> (None, c)
      | Some v \<Rightarrow> (Some v, map_delete c k @ [(k, v)]))"
proof (cases "map_of c k")
  case None
  then show ?thesis by (simp add: cacheGet_def map_get_def)
next
  case (Some v)
  then have "map_has c k" by (auto simp: map_has_def dest: map_of_SomeD intro: rev_image_eqI)
  moreover have "map_set (map_delete c k) k v = map_delete c k @ [(k, v)]"
    by (rule map_set_absent) (auto simp: map_delete_def)
  ultimately show ?thesis using Some by (simp add: cacheGet_def map_get_def)
qed

lemma take_removeAll:
  "distinct r \<Longrightarrow> take n (removeAll k r) =
     (let y = removeAll k (take (Suc n) r) in if length y > n then butlast y else y)"
proof (induction r arbitrary: n)
  case Nil then show ?case by simp
next
  case (Cons a r)
  show ?case
  proof (cases "a = k")
    case True
    with Cons.prems have "k \<notin> set r" by simp
    then have "k \<notin> set (take n r)" by (meson in_set_takeD)
    with True \<open>k \<notin> set r\<close> show ?thesis by (simp add: Let_def)
  next
    case False
    show ?thesis
    proof (cases n)
      case 0 with False show ?thesis by (simp add: Let_def)
    next
      case (Suc m)
      from Cons.prems have "distinct r" by simp
      from Cons.IH[OF this, of m] False Suc show ?thesis
        by (auto simp: Let_def)
    qed
  qed
qed

lemma rev_removeAll: "rev (removeAll k xs) = removeAll k (rev xs)"
  by (simp add: removeAll_filter_not_eq rev_filter)

lemma newest_rev: "newest n xs = rev (take n (rev xs))"
  by (simp add: newest_def take_rev)

lemma newest_touch:
  assumes "distinct d"
  shows "newest cap (removeAll k d @ [k]) =
     (let x = removeAll k (newest cap d) @ [k] in if length x > cap then tl x else x)"
proof -
  have dr: "distinct (rev d)" using assms by simp
  have "newest cap (removeAll k d @ [k]) = rev (take cap (k # removeAll k (rev d)))"
    by (simp add: newest_rev rev_removeAll del: take_Cons')
  show ?thesis
  proof (cases cap)
    case 0
    then show ?thesis by (simp add: newest_def Let_def)
  next
    case (Suc n)
    have a: "newest cap (removeAll k d @ [k]) = rev (take n (removeAll k (rev d))) @ [k]"
      using Suc by (simp add: newest_rev rev_removeAll)
    have b: "removeAll k (newest cap d) = rev (removeAll k (take (Suc n) (rev d)))"
      using Suc by (simp add: newest_rev rev_removeAll)
    define y where "y = removeAll k (take (Suc n) (rev d))"
    have c: "take n (removeAll k (rev d)) = (if length y > n then butlast y else y)"
      using take_removeAll[OF dr, of n k] by (simp add: y_def Let_def)
    show ?thesis
    proof (cases "length y > n")
      case True
      then have "y \<noteq> []" by auto
      then have "tl (rev y @ [k]) = tl (rev y) @ [k]" by (cases "rev y") auto
      moreover have "rev (butlast y) = tl (rev y)" using butlast_rev [of "rev y"] by simp
      ultimately show ?thesis
        unfolding a b c y_def [symmetric] using True Suc by (simp add: Let_def)
    next
      case False
      then show ?thesis
        unfolding a b c y_def [symmetric] using Suc by (simp add: Let_def)
    qed
  qed
qed


lemma remdups_snoc: "remdups (h @ [k]) = removeAll k (remdups h) @ [k]"
  by (induction h) auto

lemma length_newest: "length (newest n xs) \<le> n"
  by (simp add: newest_def)

lemma distinct_newest: "distinct xs \<Longrightarrow> distinct (newest n xs)"
  by (simp add: newest_def)

lemma keys_cacheSet:
  assumes "distinct (map fst c)" and "map fst c = newest cap (remdups h)"
  shows "map fst (cacheSet cap c k v) = newest cap (remdups (h @ [k]))"
proof -
  have "map fst (cacheSet cap c k v) =
      (let x = removeAll k (map fst c) @ [k] in if length x > cap then tl x else x)"
  proof -
    have l: "length (map_delete c k) = length (removeAll k (map fst c))"
      by (simp add: keys_map_delete [symmetric])
    have "map fst (cacheSet cap c k v) =
       (if length (map_delete c k @ [(k, v)]) > cap then map fst (tl (map_delete c k @ [(k, v)]))
        else map fst (map_delete c k @ [(k, v)]))"
      by (simp only: cacheSet_eq[OF assms(1)] Let_def if_distrib [of "map fst"])
    also have "\<dots> = (let x = removeAll k (map fst c) @ [k] in if length x > cap then tl x else x)"
      unfolding map_tl Let_def by (simp only: map_append keys_map_delete length_append l list.map fst_conv list.size)
    finally show ?thesis .
  qed
  also have "\<dots> = newest cap (removeAll k (remdups h) @ [k])"
    unfolding assms(2) by (rule newest_touch [symmetric]) simp
  finally show ?thesis by (simp add: remdups_snoc)
qed

lemma keys_cacheGet_hit:
  assumes "distinct (map fst c)" and "map fst c = newest cap (remdups h)" and "map_has c k"
  shows "map fst (snd (cacheGet c k)) = newest cap (remdups (h @ [k]))"
proof -
  from assms(3) obtain v where v: "map_of c k = Some v"
    unfolding map_has_def using map_of_eq_None_iff [of c k] by (cases "map_of c k") auto
  have in_keys: "k \<in> set (map fst c)" using assms(3) by (simp add: map_has_def)
  have len: "length (removeAll k (map fst c) @ [k]) = length (map fst c)"
  proof -
    have "removeAll k (map fst c) = remove1 k (map fst c)"
      using assms(1) by (simp add: distinct_remove1_removeAll)
    moreover have "length (map fst c) > 0" using in_keys by (rule length_pos_if_in_set)
    ultimately show ?thesis using in_keys by (simp add: length_remove1)
  qed
  have "length (map fst c) \<le> cap" unfolding assms(2) by (rule length_newest)
  with len have small: "\<not> length (removeAll k (map fst c) @ [k]) > cap" by simp
  have "map fst (snd (cacheGet c k)) = removeAll k (map fst c) @ [k]"
    by (simp add: cacheGet_eq[OF assms(1)] v keys_map_delete)
  also have "\<dots> = newest cap (removeAll k (remdups h) @ [k])"
    using newest_touch [of "remdups h" cap k] small unfolding assms(2) by (simp add: Let_def)
  finally show ?thesis by (simp add: remdups_snoc)
qed

lemma cacheGet_miss: "\<not> map_has c k \<Longrightarrow> cacheGet c k = (None, c)"
  by (simp add: cacheGet_def)

lemma run_cache_keys:
  assumes "distinct (map fst c)" and "map fst c = newest cap (remdups h)"
  shows "map fst (run_cache cap c ops) = newest cap (remdups (h @ touches cap c ops))"
  using assms
proof (induction ops arbitrary: c h)
  case Nil
  then show ?case by simp
next
  case (Cons x ops)
  show ?case
  proof (cases x)
    case (Put k v)
    have k: "map fst (cacheSet cap c k v) = newest cap (remdups (h @ [k]))"
      using Cons.prems by (rule keys_cacheSet)
    then have d: "distinct (map fst (cacheSet cap c k v))"
      by (simp add: distinct_newest)
    from Cons.IH[OF d k] Put show ?thesis by simp
  next
    case (Get k)
    show ?thesis
    proof (cases "map_has c k")
      case True
      have k: "map fst (snd (cacheGet c k)) = newest cap (remdups (h @ [k]))"
        using Cons.prems True by (rule keys_cacheGet_hit)
      then have d: "distinct (map fst (snd (cacheGet c k)))"
        by (simp add: distinct_newest)
      from Cons.IH[OF d k] Get True show ?thesis by simp
    next
      case False
      with Cons.IH[OF Cons.prems] Get show ?thesis by (simp add: cacheGet_miss)
    qed
  qed
qed

lemma run_cache_distinct:
  "distinct (map fst (run_cache cap [] ops))"
  using run_cache_keys [of "[]" cap "[]" ops] by (simp add: newest_def distinct_newest)

lemma set_cacheSet: "distinct (map fst c) \<Longrightarrow>
   (k', v') \<in> set (cacheSet cap c k v) \<Longrightarrow> (if k' = k then v' = v else (k', v') \<in> set c)"
proof -
  assume d: "distinct (map fst c)" and m: "(k', v') \<in> set (cacheSet cap c k v)"
  have "set (cacheSet cap c k v) \<subseteq> set (map_delete c k @ [(k, v)])"
    unfolding cacheSet_eq[OF d] Let_def
    by (cases "map_delete c k @ [(k, v)]") (auto split: if_splits)
  with m have "(k', v') \<in> set (map_delete c k @ [(k, v)])" by blast
  then show ?thesis by (auto simp: map_delete_def)
qed

lemma set_cacheGet: "distinct (map fst c) \<Longrightarrow>
   (k', v') \<in> set (snd (cacheGet c k)) \<Longrightarrow> (k', v') \<in> set c"
  by (auto simp: cacheGet_eq map_delete_def split: option.splits dest: map_of_SomeD)

lemma distinct_cacheSet:
  "distinct (map fst c) \<Longrightarrow> distinct (map fst (cacheSet cap c k v))"
proof -
  assume d: "distinct (map fst c)"
  have "distinct (removeAll k (map fst c) @ [k])" using d by (simp add: distinct_removeAll)
  then have "distinct (map fst (map_delete c k @ [(k, v)]))" by (simp add: keys_map_delete)
  then have "distinct (map fst (tl (map_delete c k @ [(k, v)])))"
    unfolding map_tl by (rule distinct_tl)
  with \<open>distinct (map fst (map_delete c k @ [(k, v)]))\<close> show ?thesis
    unfolding cacheSet_eq[OF d] Let_def
    by (cases "cap < length (map_delete c k @ [(k, v)])") simp_all
qed

lemma distinct_cacheGet:
  "distinct (map fst c) \<Longrightarrow> distinct (map fst (snd (cacheGet c k)))"
  by (cases "map_of c k") (simp_all add: cacheGet_eq keys_map_delete distinct_removeAll)

lemma distinct_cache_step:
  "distinct (map fst c) \<Longrightarrow> distinct (map fst (cache_step cap c x))"
  by (cases x) (simp_all add: distinct_cacheSet distinct_cacheGet)

lemma run_cache_values:
  "distinct (map fst c) \<Longrightarrow> (k, v) \<in> set (run_cache cap c ops) \<Longrightarrow>
     (case last_put ops k of Some w \<Rightarrow> v = w | None \<Rightarrow> (k, v) \<in> set c)"
proof (induction ops arbitrary: c)
  case Nil
  then show ?case by simp
next
  case (Cons x ops)
  have d': "distinct (map fst (cache_step cap c x))"
    using Cons.prems(1) by (rule distinct_cache_step)
  from Cons.prems(2) have "(k, v) \<in> set (run_cache cap (cache_step cap c x) ops)" by simp
  from Cons.IH[OF d' this]
  have ih: "case last_put ops k of Some w \<Rightarrow> v = w | None \<Rightarrow> (k, v) \<in> set (cache_step cap c x)" .
  show ?case
  proof (cases "last_put ops k")
    case (Some w)
    with ih show ?thesis by (cases x) simp_all
  next
    case None
    with ih have m: "(k, v) \<in> set (cache_step cap c x)" by simp
    show ?thesis
    proof (cases x)
      case (Get k')
      with m have "(k, v) \<in> set c" using set_cacheGet[OF Cons.prems(1)] by simp
      with None Get show ?thesis by simp
    next
      case (Put k' v0)
      with m have "if k = k' then v = v0 else (k, v) \<in> set c"
        using set_cacheSet[OF Cons.prems(1), of k v cap k' v0] by simp
      with None Put show ?thesis by (auto split: if_splits)
    qed
  qed
qed

text \<open>
  Claim C2. Starting from the empty cache, after any sequence of get and put operations and
  for any capacity \<open>cap\<close>, the keys of the cache, oldest first, are exactly the \<open>cap\<close> most
  recently touched distinct keys (\<open>remdups\<close> keeps the last occurrence of each key, so
  \<open>remdups\<close> of the touches orders the keys by their last touch). Once more than \<open>cap\<close>
  distinct keys have been touched the cache holds exactly \<open>cap\<close> entries. Every entry
  holds the value most recently put under its key. On such a cache, a get of a present key
  returns its value and moves the entry to the newest position, a get of an absent key
  returns \<^verbatim>\<open>null\<close> and changes nothing, and a put removes any entry of the key, appends the
  new one as the newest and, when the size then exceeds \<open>cap\<close>, drops exactly the first
  (least recently touched) entry.
\<close>

theorem cache_keeps_most_recently_touched:
  "map fst (run_cache cap [] ops) = newest cap (remdups (touches cap [] ops))
   \<and> (cap < card (set (touches cap [] ops)) \<longrightarrow> map_size (run_cache cap [] ops) = cap)
   \<and> (\<forall>k v. (k, v) \<in> set (run_cache cap [] ops) \<longrightarrow> last_put ops k = Some v)
   \<and> cacheGet (run_cache cap [] ops) key =
       (case map_of (run_cache cap [] ops) key of
          None \<Rightarrow> (None, run_cache cap [] ops)
        | Some v \<Rightarrow> (Some v, map_delete (run_cache cap [] ops) key @ [(key, v)]))
   \<and> cacheSet cap (run_cache cap [] ops) key val =
       (let c2 = map_delete (run_cache cap [] ops) key @ [(key, val)]
        in if cap < map_size c2 then tl c2 else c2)"
proof -
  let ?c = "run_cache cap [] ops"
  have keys: "map fst ?c = newest cap (remdups (touches cap [] ops))"
    using run_cache_keys [of "[]" cap "[]" ops] by (simp add: newest_def)
  have d: "distinct (map fst ?c)" by (simp add: keys distinct_newest)
  have size: "map_size ?c = cap" if "cap < card (set (touches cap [] ops))"
  proof -
    have "length (remdups (touches cap [] ops)) = card (set (touches cap [] ops))"
      by (simp add: length_remdups_card_conv)
    with that have "length (newest cap (remdups (touches cap [] ops))) = cap"
      by (simp add: newest_def)
    then show ?thesis unfolding map_size_def keys [symmetric] by simp
  qed
  have vals: "last_put ops k = Some v" if "(k, v) \<in> set ?c" for k v
    using run_cache_values [of "[]" k v cap ops] that by (cases "last_put ops k") simp_all
  show ?thesis
    using keys size vals cacheGet_eq[OF d, of key] cacheSet_eq[OF d, of cap key val]
    unfolding map_size_def by blast
qed

theorem cache_keeps_most_recently_touched_witness:
  "touches 2 [] ops_example = [1, 2, 1, 3, 1]
   \<and> 2 < card (set (touches 2 [] ops_example))
   \<and> run_cache 2 [] ops_example = [(3, 30), (1, 11)]
   \<and> (3, 30) \<in> set (run_cache 2 [] ops_example) \<and> last_put ops_example 3 = Some 30
   \<and> map_size (run_cache 2 [] ops_example) = 2"
proof -
  have t: "touches 2 [] ops_example = [1, 2, 1, 3, 1]"
    by (simp add: ops_example_def cacheGet_def cacheSet_def map_has_def map_get_def
        map_delete_def map_size_def)
  have h: "2 < card (set (touches 2 [] ops_example))"
    unfolding t by code_simp
  have r: "run_cache 2 [] ops_example = [(3, 30), (1, 11)]"
    by (simp add: ops_example_def cacheGet_def cacheSet_def map_has_def map_get_def
        map_delete_def map_size_def)
  have m: "(3, 30) \<in> set (run_cache 2 [] ops_example)"
    unfolding r by simp
  from cache_keeps_most_recently_touched [of 2 ops_example 0 0] h m
  have "map_size (run_cache 2 [] ops_example) = 2" and "last_put ops_example 3 = Some 30"
    by blast+
  with t h r m show ?thesis by simp
qed

section \<open>What the operations leave unchanged\<close>

lemma upd_field_eq:
  "upd_field k g s =
     s\<lparr>form_fields := (\<lambda>k'. if k' = k then map_option g (form_fields s k) else form_fields s k')\<rparr>"
proof (cases "form_fields s k")
  case None
  have "(\<lambda>k'. if k' = k then map_option g (form_fields s k) else form_fields s k') = form_fields s"
    using None by (auto simp: fun_eq_iff)
  then show ?thesis using None by (simp add: upd_field_def)
next
  case (Some f)
  have "(\<lambda>k'. if k' = k then map_option g (form_fields s k) else form_fields s k')
        = (form_fields s)(k \<mapsto> g f)"
    using Some by (auto simp: fun_eq_iff)
  then show ?thesis using Some by (simp add: upd_field_def)
qed

lemma fields_only_refl: "fields_only s s"
  by (simp add: fields_only_def)

lemma fields_only_iff: "fields_only s s' \<longleftrightarrow> (\<exists>F. s' = s\<lparr>form_fields := F\<rparr>)"
proof
  assume "fields_only s s'"
  then have "s' = s\<lparr>form_fields := form_fields s'\<rparr>" by (simp add: fields_only_def)
  then show "\<exists>F. s' = s\<lparr>form_fields := F\<rparr>" by (rule exI [where x = "form_fields s'"])
next
  assume "\<exists>F. s' = s\<lparr>form_fields := F\<rparr>"
  then obtain F where "s' = s\<lparr>form_fields := F\<rparr>" ..
  then show "fields_only s s'" by (simp add: fields_only_def)
qed

lemma fields_only_trans: "fields_only s s1 \<Longrightarrow> fields_only s1 s2 \<Longrightarrow> fields_only s s2"
  unfolding fields_only_iff by auto

lemma fields_only_update: "fields_only s (s\<lparr>form_fields := F\<rparr>)"
  by (simp add: fields_only_def)

lemma fields_only_upd_field: "fields_only s (upd_field k g s)"
  by (simp add: upd_field_eq fields_only_update)

lemma fields_only_fold:
  "(\<And>k s. fields_only s (h k s)) \<Longrightarrow> fields_only s (fold h ks s)"
proof (induction ks arbitrary: s)
  case Nil then show ?case by (simp add: fields_only_refl)
next
  case (Cons k ks)
  have "fields_only s (h k s)" by (rule Cons.prems)
  moreover have "fields_only (h k s) (fold h ks (h k s))" by (rule Cons.IH) (rule Cons.prems)
  ultimately show ?case by (simp add: fields_only_trans)
qed

lemma fields_only_set_input: "fields_only s (set_input k v s)"
  by (simp add: set_input_def fields_only_upd_field)

lemma fields_only_resetFields: "fields_only s (resetFields ex s)"
  by (simp add: resetFields_def fields_only_update)

lemma fields_only_preventInteraction: "fields_only s (preventInteraction ks s)"
  unfolding preventInteraction_def by (rule fields_only_fold) (rule fields_only_upd_field)

lemma fields_only_hideElements: "fields_only s (hideElements ks s)"
  unfolding hideElements_def by (rule fields_only_fold) (rule fields_only_upd_field)

lemma fields_only_clearAndResetForm: "fields_only s (clearAndResetForm s)"
proof -
  let ?s1 = "resetFields [] s"
  let ?s2 = "?s1\<lparr>form_fields := (\<lambda>k. map_option
                  (\<lambda>f. f\<lparr>inline_error := None, no_results := None, spinner := False,
                         mismatch_text := None\<rparr>) (form_fields ?s1 k))\<rparr>"
  have a: "fields_only s ?s2"
    by (rule fields_only_trans [OF fields_only_resetFields fields_only_update])
  have b: "fields_only s (preventInteraction ks ?s2)" for ks
    by (rule fields_only_trans [OF a fields_only_preventInteraction])
  have c: "fields_only s (set_input k v (preventInteraction ks ?s2))" for ks k v
    by (rule fields_only_trans [OF b fields_only_set_input])
  show ?thesis
    unfolding clearAndResetForm_def Let_def using b c by (simp split: if_splits)
qed

lemma fields_only_proj:
  assumes "fields_only s s'"
  shows "currentMode s' = currentMode s"
    and "autocompleteInstance s' = autocompleteInstance s"
    and "lastSelectedEstablishment s' = lastSelectedEstablishment s"
    and "nameSearchController s' = nameSearchController s"
    and "codeLookupController s' = codeLookupController s"
    and "mismatchAlertDispatched s' = mismatchAlertDispatched s"
    and "formEl s' = formEl s"
    and "airtableCache s' = airtableCache s"
    and "navigator_offline s' = navigator_offline s"
    and "controllers s' = controllers s"
    and "aborted s' = aborted s"
    and "pending s' = pending s"
    and "network_log s' = network_log s"
    and "alerts s' = alerts s"
    and "callback_log s' = callback_log s"
proof -
  from assms obtain F where "s' = s\<lparr>form_fields := F\<rparr>" unfolding fields_only_iff ..
  then show "currentMode s' = currentMode s"
    and "autocompleteInstance s' = autocompleteInstance s"
    and "lastSelectedEstablishment s' = lastSelectedEstablishment s"
    and "nameSearchController s' = nameSearchController s"
    and "codeLookupController s' = codeLookupController s"
    and "mismatchAlertDispatched s' = mismatchAlertDispatched s"
    and "formEl s' = formEl s"
    and "airtableCache s' = airtableCache s"
    and "navigator_offline s' = navigator_offline s"
    and "controllers s' = controllers s"
    and "aborted s' = aborted s"
    and "pending s' = pending s"
    and "network_log s' = network_log s"
    and "alerts s' = alerts s"
    and "callback_log s' = callback_log s"
    by simp_all
qed

section \<open>The fields after each operation\<close>

lemma form_fields_upd_field:
  "form_fields (upd_field k g s) k' =
     (if k' = k then map_option g (form_fields s k) else form_fields s k')"
  by (simp add: upd_field_eq)

lemma fold_upd_field:
  assumes "\<And>f. g (g f) = g f"
  shows "form_fields (fold (\<lambda>k. upd_field k g) ks s) k =
     (if k \<in> set ks then map_option g (form_fields s k) else form_fields s k)"
proof (induction ks arbitrary: s)
  case Nil then show ?case by simp
next
  case (Cons a ks)
  show ?case
    by (simp add: Cons.IH form_fields_upd_field option.map_comp comp_def assms)
qed

lemma preventEdit_idem: "preventEdit (preventEdit f) = preventEdit f"
  by (simp add: preventEdit_def)

lemma form_fields_preventInteraction:
  "form_fields (preventInteraction ks s) k =
     (if k \<in> set ks then map_option preventEdit (form_fields s k) else form_fields s k)"
  unfolding preventInteraction_def by (rule fold_upd_field) (rule preventEdit_idem)

lemma form_fields_hideElements:
  "form_fields (hideElements ks s) k =
     (if k \<in> set ks then map_option (\<lambda>f. f\<lparr>display_none := True\<rparr>) (form_fields s k)
      else form_fields s k)"
  unfolding hideElements_def by (rule fold_upd_field) simp

lemma form_fields_set_input:
  "form_fields (set_input k v s) k' =
     (if k' = k
      then map_option (\<lambda>f. case input_value f of None \<Rightarrow> f | Some _ \<Rightarrow> f\<lparr>input_value := Some v\<rparr>)
             (form_fields s k)
      else form_fields s k')"
  by (simp add: set_input_def form_fields_upd_field)

lemma form_fields_resetFields:
  "form_fields (resetFields ex s) k =
     (if k \<in> set ex then form_fields s k else map_option resetField (form_fields s k))"
  by (simp add: resetFields_def)

lemma state_eqI:
  "fields_only s s1 \<Longrightarrow> fields_only s s2 \<Longrightarrow> form_fields s1 = form_fields s2 \<Longrightarrow> s1 = s2"
  unfolding fields_only_def by metis

lemma form_fields_setMode:
  "form_fields (setMode mode s) k = map_option (mode_effect mode k) (form_fields s k)"
  by (cases "form_fields s k")
     (auto simp: setMode_def Let_def form_fields_preventInteraction form_fields_hideElements
        mode_effect_def preventEdit_def)

lemma fields_only_setMode: "fields_only (s\<lparr>currentMode := mode\<rparr>) (setMode mode s)"
  unfolding setMode_def Let_def
  by (rule fields_only_trans [OF fields_only_hideElements fields_only_preventInteraction])

lemma currentMode_setMode: "currentMode (setMode mode s) = mode"
  using fields_only_proj(1) [OF fields_only_setMode, of mode s] by simp

lemma mode_effect_idem: "mode_effect mode k (mode_effect mode k f) = mode_effect mode k f"
  by (auto simp: mode_effect_def)

lemma setMode_idem: "setMode mode (setMode mode s) = setMode mode s"
proof (rule state_eqI)
  have a: "fields_only (s\<lparr>currentMode := mode\<rparr>) (setMode mode s)" by (rule fields_only_setMode)
  have b: "fields_only ((setMode mode s)\<lparr>currentMode := mode\<rparr>) (setMode mode (setMode mode s))"
    by (rule fields_only_setMode)
  have c: "(setMode mode s)\<lparr>currentMode := mode\<rparr> = setMode mode s"
    using currentMode_setMode [of mode s] by (cases "setMode mode s") simp
  show "fields_only (s\<lparr>currentMode := mode\<rparr>) (setMode mode (setMode mode s))"
    using fields_only_trans [OF a] b c by simp
  show "fields_only (s\<lparr>currentMode := mode\<rparr>) (setMode mode s)" by (rule a)
  show "form_fields (setMode mode (setMode mode s)) = form_fields (setMode mode s)"
    by (rule ext) (simp add: form_fields_setMode option.map_comp comp_def mode_effect_idem)
qed

lemma input_value_resetField:
  "input_value (resetField f) = map_option (\<lambda>_. []) (input_value f)"
  by (simp add: resetField_def split: option.splits)

lemma select_resetField:
  "map_option selectedIndex (fld_select (resetField f)) =
     map_option (\<lambda>sel. if sel_options sel = [] then - 1 else 0) (fld_select f)"
  by (auto simp: resetField_def select_set_index_def select_set_value_def split: option.splits)

lemma options_resetField:
  "map_option sel_options (fld_select (resetField f)) = map_option sel_options (fld_select f)"
  by (auto simp: resetField_def select_set_index_def select_set_value_def split: option.splits)

lemma form_fields_clearAndResetForm:
  "form_fields (clearAndResetForm s) k =
     map_option (reset_effect (currentMode s) k) (form_fields s k)"
proof -
  define s2 where "s2 = (resetFields [] s)\<lparr>form_fields := (\<lambda>k. map_option
                  (\<lambda>f. f\<lparr>inline_error := None, no_results := None, spinner := False,
                         mismatch_text := None\<rparr>) (form_fields (resetFields [] s) k))\<rparr>"
  define s3 where "s3 = preventInteraction (preventList_of (currentMode s2)) s2"
  have m: "currentMode s2 = currentMode s" by (simp add: s2_def resetFields_def)
  have f3: "form_fields s3 k = map_option (reset_effect (currentMode s) k) (form_fields s k)" for k
    by (cases "form_fields s k")
       (simp_all add: s3_def form_fields_preventInteraction m s2_def resetFields_def
          reset_effect_def)
  have iv: "input_value (reset_effect mode k f) = map_option (\<lambda>_. []) (input_value f)" for mode k f
    by (simp add: reset_effect_def preventEdit_def input_value_resetField)
  have f4: "form_fields (set_input officialEstablishmentName [] s3) k = form_fields s3 k"
  proof (cases "form_fields s officialEstablishmentName")
    case None
    then show ?thesis by (simp add: form_fields_set_input f3)
  next
    case (Some f)
    have "(case input_value (reset_effect (currentMode s) officialEstablishmentName f) of
             None \<Rightarrow> reset_effect (currentMode s) officialEstablishmentName f
           | Some _ \<Rightarrow> (reset_effect (currentMode s) officialEstablishmentName f)\<lparr>input_value := Some []\<rparr>)
          = reset_effect (currentMode s) officialEstablishmentName f"
      using iv [of "currentMode s" officialEstablishmentName f]
      by (cases "input_value f") auto
    then show ?thesis using Some by (simp add: form_fields_set_input f3)
  qed
  have "clearAndResetForm s =
      (if currentMode s3 \<noteq> ''Partner Early-Access Code Lookup'' \<and> autocompleteInstance s3
            \<and> has_input officialEstablishmentName s3
       then set_input officialEstablishmentName [] s3 else s3)"
    by (simp add: clearAndResetForm_def Let_def s3_def s2_def)
  then show ?thesis using f3 f4 by (simp split: if_splits)
qed

lemma example_state_fields:
  "form_fields example_state k =
     map_option (mode_effect ''Partner Early-Access Code Lookup'' k) (example_fields k)"
  by (simp add: example_state_def initializeSystem_def initializeFields_def initial_state_def
        updateFormSubmitState_def Let_def form_fields_setMode has_input_def
        fields_only_proj [OF fields_only_setMode] split: option.splits)

lemma example_state_rest:
  "currentMode example_state = ''Partner Early-Access Code Lookup''"
  "lastSelectedEstablishment example_state = \<lparr>sel_id = Null, sel_name = Null\<rparr>"
  "formEl example_state = Some [\<lparr>disabled = True, btn_aria_disabled = ''true''\<rparr>]"
  "autocompleteInstance example_state = True"
  "mismatchAlertDispatched example_state = False"
  "alerts example_state = []"
  "airtableCache example_state = []"
  "pending example_state = []"
  "network_log example_state = []"
  "controllers example_state = 0"
  "aborted example_state = []"
  "codeLookupController example_state = None"
  "nameSearchController example_state = None"
  "callback_log example_state = []"
  "navigator_offline example_state = False"
  by (simp_all add: example_state_def initializeSystem_def initializeFields_def initial_state_def
        updateFormSubmitState_def Let_def form_fields_setMode has_input_def currentMode_setMode
        fields_only_proj [OF fields_only_setMode] example_fields_def text_field_def
        mode_effect_def split: option.splits)

lemmas eval_strings =
  toLowerCase_def lower_char_def trim_def is_space_def option_matches_def candidates_def

lemma example_award_field: "form_fields example_state awardLevel = Some award_field"
  by (simp add: example_state_fields example_fields_def select_field_def mode_effect_def
        config_of_def MODES_def award_field_def award_select_def)

section \<open>The option matcher\<close>

lemma startsWith_iff: "startsWith s t \<longleftrightarrow> (\<exists>q. s = t @ q)"
  by (induction s t rule: startsWith.induct) auto

lemma js_includes_iff: "js_includes v t \<longleftrightarrow> is_substring t v"
proof (induction v)
  case Nil
  then show ?case by (auto simp: is_substring_def)
next
  case (Cons c cs)
  have "is_substring t (c # cs) \<longleftrightarrow> (\<exists>q. c # cs = t @ q) \<or> is_substring t cs"
  proof
    assume "is_substring t (c # cs)"
    then obtain p q where pq: "c # cs = p @ t @ q" unfolding is_substring_def by blast
    show "(\<exists>q. c # cs = t @ q) \<or> is_substring t cs"
    proof (cases p)
      case Nil with pq show ?thesis by auto
    next
      case (Cons a p')
      with pq have "cs = p' @ t @ q" by simp
      then show ?thesis unfolding is_substring_def by blast
    qed
  next
    assume "(\<exists>q. c # cs = t @ q) \<or> is_substring t cs"
    then show "is_substring t (c # cs)"
    proof
      assume "\<exists>q. c # cs = t @ q"
      then obtain q where "c # cs = [] @ t @ q" by auto
      then show ?thesis unfolding is_substring_def by blast
    next
      assume "is_substring t cs"
      then obtain p q where "cs = p @ t @ q" unfolding is_substring_def by blast
      then have "c # cs = (c # p) @ t @ q" by simp
      then show ?thesis unfolding is_substring_def by blast
    qed
  qed
  with Cons show ?case by (simp add: startsWith_iff)
qed

lemma option_matches_iff: "option_matches (toLowerCase t) opt \<longleftrightarrow> claimed_match t opt"
  by (cases "opt_data_name opt")
     (auto simp: option_matches_def claimed_match_def candidates_def equals_or_contains_def
        js_includes_iff trim_def)

lemma find_first_None: "find_first P xs = None \<longleftrightarrow> (\<forall>x \<in> set xs. \<not> P x)"
  by (induction xs) (auto split: option.splits)

lemma find_first_Some:
  "find_first P xs = Some (i, y) \<Longrightarrow>
     i < length xs \<and> xs ! i = y \<and> P y \<and> (\<forall>j < i. \<not> P (xs ! j))"
proof (induction xs arbitrary: i)
  case Nil then show ?case by simp
next
  case (Cons x xs)
  show ?case
  proof (cases "P x")
    case True
    with Cons.prems show ?thesis by simp
  next
    case False
    with Cons.prems obtain i' where f: "find_first P xs = Some (i', y)" and i: "i = Suc i'"
      by (auto split: option.splits)
    from Cons.IH[OF f] have ih: "i' < length xs \<and> xs ! i' = y \<and> P y \<and> (\<forall>j < i'. \<not> P (xs ! j))" .
    have "\<not> P ((x # xs) ! j)" if "j < i" for j
      using that ih False i by (cases j) auto
    with ih i show ?thesis by simp
  qed
qed

lemma setSelectValue_falsy:
  "\<not> truthy v \<Longrightarrow> setSelectValue k v s = (Returned False, s)"
  by (simp add: setSelectValue_def split: option.splits)

lemma setSelectValue_match:
  assumes "form_fields s k = Some f" and "fld_select f = Some sel" and "t \<noteq> []"
    and "find_first (option_matches (toLowerCase t)) (sel_options sel) = Some (i, m)"
  shows "setSelectValue k (Str t) s =
     (Returned True,
      upd_field k (\<lambda>f. f\<lparr>fld_select :=
          Some ((select_set_value (opt_value m) sel)\<lparr>selectedIndex := int i\<rparr>),
        mismatch_text := None\<rparr>) s)"
  using assms by (simp add: setSelectValue_def)

lemma setSelectValue_nomatch:
  assumes "form_fields s k = Some f" and "fld_select f = Some sel" and "t \<noteq> []"
    and "find_first (option_matches (toLowerCase t)) (sel_options sel) = None"
  shows "setSelectValue k (Str t) s =
     (Returned False,
      clearAndResetForm
        (let s1 = upd_field k
              (\<lambda>f'. f'\<lparr>mismatch_text := Some (mismatch_message t (clean_label (label_text f)))\<rparr>) s
         in if \<not> mismatchAlertDispatched s1
            then s1\<lparr>mismatchAlertDispatched := True,
                    alerts := alerts s1 @ [\<lparr>notice_label = clean_label (label_text f), notice_value = t,
                 notice_inline = Some (mismatch_message t (clean_label (label_text f)))\<rparr>]\<rparr>
            else s1))"
  using assms
  by (simp add: setSelectValue_def Let_def shown_mismatch_def form_fields_upd_field)

section \<open>The option mismatch\<close>

lemma resolver_only_iff:
  "resolver_only s s' \<longleftrightarrow>
     (\<exists>F d a. s' = s\<lparr>form_fields := F, mismatchAlertDispatched := d, alerts := a\<rparr>)"
proof
  assume "resolver_only s s'"
  then have "s' = s\<lparr>form_fields := form_fields s',
             mismatchAlertDispatched := mismatchAlertDispatched s', alerts := alerts s'\<rparr>"
    by (simp add: resolver_only_def)
  then show "\<exists>F d a. s' = s\<lparr>form_fields := F, mismatchAlertDispatched := d, alerts := a\<rparr>"
    by blast
next
  assume "\<exists>F d a. s' = s\<lparr>form_fields := F, mismatchAlertDispatched := d, alerts := a\<rparr>"
  then obtain F d a where "s' = s\<lparr>form_fields := F, mismatchAlertDispatched := d, alerts := a\<rparr>"
    by blast
  then show "resolver_only s s'" by (simp add: resolver_only_def)
qed

lemma resolver_only_refl: "resolver_only s s"
  by (simp add: resolver_only_def)

lemma resolver_onlyI:
  "s' = s\<lparr>form_fields := F, mismatchAlertDispatched := d, alerts := a\<rparr> \<Longrightarrow> resolver_only s s'"
  by (simp add: resolver_only_def)

lemma resolver_only_trans:
  assumes "resolver_only s s1" and "resolver_only s1 s2"
  shows "resolver_only s s2"
proof -
  from assms(1) obtain F d a
    where 1: "s1 = s\<lparr>form_fields := F, mismatchAlertDispatched := d, alerts := a\<rparr>"
    unfolding resolver_only_iff by blast
  from assms(2) obtain F' d' a'
    where 2: "s2 = s1\<lparr>form_fields := F', mismatchAlertDispatched := d', alerts := a'\<rparr>"
    unfolding resolver_only_iff by blast
  have "s2 = s\<lparr>form_fields := F', mismatchAlertDispatched := d', alerts := a'\<rparr>"
    unfolding 2 1 by simp
  then show ?thesis by (rule resolver_onlyI)
qed

lemma fields_only_resolver_only: "fields_only s s' \<Longrightarrow> resolver_only s s'"
  unfolding resolver_only_iff fields_only_iff
proof -
  assume "\<exists>F. s' = s\<lparr>form_fields := F\<rparr>"
  then obtain F where "s' = s\<lparr>form_fields := F\<rparr>" ..
  then have "s' = s\<lparr>form_fields := F, mismatchAlertDispatched := mismatchAlertDispatched s,
       alerts := alerts s\<rparr>" by simp
  then show "\<exists>F d a. s' = s\<lparr>form_fields := F, mismatchAlertDispatched := d, alerts := a\<rparr>"
    by blast
qed

lemma resolver_only_proj:
  assumes "resolver_only s s'"
  shows "currentMode s' = currentMode s"
    and "autocompleteInstance s' = autocompleteInstance s"
    and "lastSelectedEstablishment s' = lastSelectedEstablishment s"
    and "nameSearchController s' = nameSearchController s"
    and "codeLookupController s' = codeLookupController s"
    and "formEl s' = formEl s"
    and "airtableCache s' = airtableCache s"
    and "navigator_offline s' = navigator_offline s"
    and "controllers s' = controllers s"
    and "aborted s' = aborted s"
    and "pending s' = pending s"
    and "network_log s' = network_log s"
    and "callback_log s' = callback_log s"
proof -
  from assms obtain F d a
    where "s' = s\<lparr>form_fields := F, mismatchAlertDispatched := d, alerts := a\<rparr>"
    unfolding resolver_only_iff by blast
  then show "currentMode s' = currentMode s"
    and "autocompleteInstance s' = autocompleteInstance s"
    and "lastSelectedEstablishment s' = lastSelectedEstablishment s"
    and "nameSearchController s' = nameSearchController s"
    and "codeLookupController s' = codeLookupController s"
    and "formEl s' = formEl s"
    and "airtableCache s' = airtableCache s"
    and "navigator_offline s' = navigator_offline s"
    and "controllers s' = controllers s"
    and "aborted s' = aborted s"
    and "pending s' = pending s"
    and "network_log s' = network_log s"
    and "callback_log s' = callback_log s"
    by simp_all
qed

lemma resolver_only_setSelectValue: "resolver_only s (snd (setSelectValue k v s))"
proof -
  have a: "resolver_only s (upd_field k g s)" for g
    by (rule fields_only_resolver_only) (rule fields_only_upd_field)
  have b: "resolver_only s (s1\<lparr>mismatchAlertDispatched := True, alerts := x\<rparr>)"
    if "resolver_only s s1" for s1 x
  proof -
    from that obtain F d a
      where 1: "s1 = s\<lparr>form_fields := F, mismatchAlertDispatched := d, alerts := a\<rparr>"
      unfolding resolver_only_iff by blast
    have "s1\<lparr>mismatchAlertDispatched := True, alerts := x\<rparr>
          = s\<lparr>form_fields := F, mismatchAlertDispatched := True, alerts := x\<rparr>"
      unfolding 1 by simp
    then show ?thesis by (rule resolver_onlyI)
  qed
  have c: "resolver_only s (clearAndResetForm s1)" if "resolver_only s s1" for s1
    using that fields_only_resolver_only [OF fields_only_clearAndResetForm, of s1]
    by (rule resolver_only_trans)
  show ?thesis
    unfolding setSelectValue_def Let_def
    by (auto simp: resolver_only_refl a b c split: option.splits jsval.splits)
qed



section \<open>Invalidation\<close>

lemma set_input_resetFields:
  assumes "k \<notin> set ex"
  shows "set_input k [] (resetFields ex s) = resetFields ex s"
proof -
  have r: "(case input_value (resetField f) of None \<Rightarrow> resetField f
            | Some _ \<Rightarrow> (resetField f)\<lparr>input_value := Some []\<rparr>) = resetField f" for f
    using input_value_resetField [of f] by (cases "input_value f") auto
  have "form_fields (set_input k [] (resetFields ex s)) k' = form_fields (resetFields ex s) k'"
    for k'
    using assms
    by (cases "form_fields s k") (simp_all add: form_fields_set_input form_fields_resetFields r)
  then have "form_fields (set_input k [] (resetFields ex s)) = form_fields (resetFields ex s)"
    by (rule ext)
  with fields_only_set_input [of "resetFields ex s" k "[]"] show ?thesis
    by (simp add: fields_only_def)
qed

lemma resetDependentFields_eq:
  "resetDependentFields ex s =
     s\<lparr>form_fields := (\<lambda>k. if k \<in> set ex then form_fields s k
                            else map_option resetField (form_fields s k)),
       lastSelectedEstablishment := \<lparr>sel_id = Null, sel_name = Null\<rparr>,
       formEl := map_option (map (\<lambda>btn. btn\<lparr>disabled := True, btn_aria_disabled := ''true''\<rparr>))
                   (formEl s)\<rparr>"
proof -
  have "(if customEstablishmentName \<notin> set ex
         then set_input customEstablishmentName [] (resetFields ex s)
         else resetFields ex s) = resetFields ex s"
    by (simp add: set_input_resetFields)
  then have "resetDependentFields ex s =
      updateFormSubmitState
        ((resetFields ex s)\<lparr>lastSelectedEstablishment := \<lparr>sel_id = Null, sel_name = Null\<rparr>\<rparr>)"
    by (simp add: resetDependentFields_def Let_def)
  then show ?thesis
    by (cases "formEl s") (simp_all add: resetFields_def updateFormSubmitState_def)
qed

section \<open>The selection resolver\<close>

lemma resolver_only_guarded:
  "resolver_only s (snd (if has_select k s then setSelectValue k v s else (Returned False, s)))"
  by (simp add: resolver_only_setSelectValue resolver_only_refl)

lemma resolver_only_updateSelectElements:
  "resolver_only s (snd (updateSelectElements a b c d s))"
proof -
  define s1 where "s1 = set_input customEstablishmentName (js_string a) s"
  obtain r2 s2 where e2: "(if has_select partnerStatus s1
                      then setSelectValue partnerStatus b s1
                      else (Returned False, s1)) = (r2, s2)"
    by (cases "if has_select partnerStatus s1 then setSelectValue partnerStatus b s1
               else (Returned False, s1)")
  obtain r3 s3 where e3: "(if has_select awardLevel s2
                      then setSelectValue awardLevel c s2
                      else (Returned False, s2)) = (r3, s3)"
    by (cases "if has_select awardLevel s2 then setSelectValue awardLevel c s2
               else (Returned False, s2)")
  obtain r4 s4 where e4: "(if has_select dutiesAndTaxes s3
                      then setSelectValue dutiesAndTaxes d s3
                      else (Returned False, s3)) = (r4, s4)"
    by (cases "if has_select dutiesAndTaxes s3 then setSelectValue dutiesAndTaxes d s3
               else (Returned False, s3)")
  have 1: "resolver_only s s1"
    unfolding s1_def by (rule fields_only_resolver_only) (rule fields_only_set_input)
  have 2: "resolver_only s s2"
    using resolver_only_trans [OF 1 resolver_only_guarded [of s1 partnerStatus b]] e2 by simp
  have 3: "resolver_only s s3"
    using resolver_only_trans [OF 2 resolver_only_guarded [of s2 awardLevel c]] e3 by simp
  have 4: "resolver_only s s4"
    using resolver_only_trans [OF 3 resolver_only_guarded [of s3 dutiesAndTaxes d]] e4 by simp
  have "snd (updateSelectElements a b c d s) =
      (if r2 = Threw then s2 else if r3 = Threw then s3 else s4)"
    unfolding updateSelectElements_def Let_def s1_def [symmetric] e2 prod.case e3 e4
    by simp
  with 2 3 4 show ?thesis by simp
qed

lemma resolver_only_set_dropdowns:
  "resolver_only s (snd (set_dropdowns ms r s))"
proof (induction ms arbitrary: s)
  case Nil
  then show ?case by (simp add: resolver_only_refl)
next
  case (Cons m ms)
  obtain fieldName configName where m: "m = (fieldName, configName)" by (cases m)
  show ?case
  proof (cases "truthy (field_of r fieldName) \<and> has_select configName s")
    case False
    then show ?thesis using Cons.IH [of s] m by auto
  next
    case True
    obtain res s' where r: "setSelectValue configName (field_of r fieldName) s = (res, s')"
      by (cases "setSelectValue configName (field_of r fieldName) s")
    have a: "resolver_only s s'"
      using resolver_only_setSelectValue [of s configName "field_of r fieldName"] r by simp
    show ?thesis
    proof (cases res)
      case Threw
      with True m r a show ?thesis by simp
    next
      case (Returned x)
      with True m r resolver_only_trans [OF a Cons.IH [of s']] show ?thesis by simp
    qed
  qed
qed

lemma resolver_only_handleRedemptionCodeSelection:
  "resolver_only s (snd (handleRedemptionCodeSelection r s))"
proof -
  define name where "name = field_of r ''Official Establishment Name''"
  define s1 where "s1 = (if truthy name
                then set_input customEstablishmentName (js_string name)
                       (set_input officialEstablishmentName (js_string name) s)
                else s)"
  have 1: "resolver_only s s1"
    unfolding s1_def
    by (auto intro!: fields_only_resolver_only fields_only_trans [OF fields_only_set_input
          fields_only_set_input] simp: resolver_only_refl)
  obtain res s2 where d: "set_dropdowns dropdownMappings r s1 = (res, s2)"
    by (cases "set_dropdowns dropdownMappings r s1")
  have 2: "resolver_only s s2"
    using resolver_only_trans [OF 1 resolver_only_set_dropdowns [of s1 dropdownMappings r]] d
    by simp
  show ?thesis
  proof (cases res)
    case Threw
    with d 2 show ?thesis
      by (simp add: handleRedemptionCodeSelection_def Let_def name_def [symmetric]
            s1_def [symmetric])
  next
    case (Returned x)
    with d resolver_only_trans [OF 2 resolver_only_updateSelectElements] show ?thesis
      by (simp add: handleRedemptionCodeSelection_def Let_def name_def [symmetric]
            s1_def [symmetric])
  qed
qed

lemmas eval_resolver =
  onSelectItem_def handleRedemptionCodeSelection_def dropdownMappings_def
  updateSelectElements_def setSelectValue_def field_of_def aman_item_def aman_record_def
  has_select_def has_input_def input_of_def js_or_def set_input_def
  removeInlineErrorMessage_def removeNoResultsMessage_def form_fields_upd_field
  example_state_fields example_fields_def select_field_def text_field_def mode_effect_def
  config_of_def MODES_def Let_def select_set_value_def select_set_index_def eval_strings

lemma handle_example_returns:
  "fst (handleRedemptionCodeSelection aman_record
         (removeInlineErrorMessage officialEstablishmentName
            (removeNoResultsMessage officialEstablishmentName example_state))) = Returned ()"
  by (simp add: eval_resolver)

lemma selected_state_selection:
  "lastSelectedEstablishment selected_state = \<lparr>sel_id = Str ''rec1'', sel_name = Str ''Aman Tokyo''\<rparr>"
  "formEl selected_state = Some [\<lparr>disabled = False, btn_aria_disabled = ''false''\<rparr>]"
proof -
  let ?s1 = "removeInlineErrorMessage officialEstablishmentName
            (removeNoResultsMessage officialEstablishmentName example_state)"
  obtain s2 where h: "handleRedemptionCodeSelection aman_record ?s1 = (Returned (), s2)"
    using handle_example_returns
    by (cases "handleRedemptionCodeSelection aman_record ?s1") auto
  have k: "fields_only example_state ?s1"
    unfolding removeInlineErrorMessage_def removeNoResultsMessage_def
    by (rule fields_only_trans [OF fields_only_upd_field fields_only_upd_field])
  have r: "resolver_only example_state s2"
    using resolver_only_trans [OF fields_only_resolver_only [OF k]
            resolver_only_handleRedemptionCodeSelection [of ?s1 aman_record]] h by simp
  have f: "formEl s2 = Some [\<lparr>disabled = True, btn_aria_disabled = ''true''\<rparr>]"
    using resolver_only_proj(6) [OF r] by (simp add: example_state_rest)
  have e: "selected_state = updateFormSubmitState
       (s2\<lparr>lastSelectedEstablishment :=
            \<lparr>sel_id = js_or (rec_id aman_record) Null,
             sel_name = js_or (js_or (field_of aman_record ''Official Establishment Name'')
                                     (input_of officialEstablishmentName s2)) Null\<rparr>\<rparr>)"
    by (simp add: selected_state_def onSelectItem_def aman_item_def h Let_def)
  show "lastSelectedEstablishment selected_state = \<lparr>sel_id = Str ''rec1'', sel_name = Str ''Aman Tokyo''\<rparr>"
    unfolding e by (simp add: updateFormSubmitState_def f Let_def aman_record_def js_or_def field_of_def)
  show "formEl selected_state = Some [\<lparr>disabled = False, btn_aria_disabled = ''false''\<rparr>]"
    unfolding e by (simp add: updateFormSubmitState_def f Let_def aman_record_def js_or_def field_of_def)
qed

lemma selected_state_fields:
  "map_option input_value (form_fields selected_state officialEstablishmentName)
     = Some (Some ''Aman Tokyo'')"
  "map_option input_value (form_fields selected_state customEstablishmentName)
     = Some (Some ''Aman Tokyo'')"
  "selected_index awardLevel selected_state = Some 2"
  by (simp_all add: selected_state_def selected_index_def updateFormSubmitState_def
        example_state_rest eval_resolver split: option.splits)

section \<open>The submit state follows the last selection\<close>

lemma selection_kept_refl: "selection_kept s s"
  by (simp add: selection_kept_def)

lemma selection_kept_trans:
  "selection_kept s s1 \<Longrightarrow> selection_kept s1 s2 \<Longrightarrow> selection_kept s s2"
  by (simp add: selection_kept_def)

lemma fields_only_kept: "fields_only s s' \<Longrightarrow> selection_kept s s'"
  by (simp add: selection_kept_def fields_only_proj)

lemma resolver_only_kept: "resolver_only s s' \<Longrightarrow> selection_kept s s'"
  by (simp add: selection_kept_def resolver_only_proj)

lemma kept_upd_field: "selection_kept s (upd_field k g s)"
  by (rule fields_only_kept) (rule fields_only_upd_field)

lemma kept_messages:
  "selection_kept s (removeInlineSpinner k s)"
  "selection_kept s (showInlineSpinner k s)"
  "selection_kept s (removeNoResultsMessage k s)"
  "selection_kept s (showNoResultsMessage k q ty s)"
  "selection_kept s (removeInlineErrorMessage k s)"
  "selection_kept s (showInlineErrorMessage k m s)"
  by (simp_all add: removeInlineSpinner_def showInlineSpinner_def removeNoResultsMessage_def
        showNoResultsMessage_def removeInlineErrorMessage_def showInlineErrorMessage_def
        kept_upd_field)

lemma derived_kept: "submit_derived s \<Longrightarrow> selection_kept s s' \<Longrightarrow> submit_derived s'"
proof -
  assume d: "submit_derived s" and k: "selection_kept s s'"
  from k have "lastSelectedEstablishment s' = lastSelectedEstablishment s" "formEl s' = formEl s"
    by (simp_all add: selection_kept_def)
  then have "submit_derived s' = submit_derived s"
    by (simp only: submit_derived_def)
  with d show ?thesis by simp
qed

lemma derived_resetDependentFields: "submit_derived (resetDependentFields ex s)"
  by (cases "formEl s") (simp_all add: resetDependentFields_eq submit_derived_def list_all_iff)

lemma derived_update:
  assumes "i = Null \<or> truthy i"
  shows "submit_derived
     (updateFormSubmitState (s\<lparr>lastSelectedEstablishment := \<lparr>sel_id = i, sel_name = n\<rparr>\<rparr>))"
proof -
  have "truthy i \<longleftrightarrow> i \<noteq> Null" using assms by (cases i) auto
  then show ?thesis using assms
    by (cases "formEl s")
       (auto simp: updateFormSubmitState_def submit_derived_def Let_def list_all_iff)
qed

lemma js_or_Null: "js_or v Null = Null \<or> truthy (js_or v Null)"
  by (simp add: js_or_def)

text \<open>Either the selection and the buttons are kept, or the buttons follow the selection.\<close>

lemma effect_trans:
  "selection_kept s s1 \<Longrightarrow> selection_kept s1 s2 \<or> submit_derived s2 \<Longrightarrow>
     selection_kept s s2 \<or> submit_derived s2"
  by (auto intro: selection_kept_trans)

lemma effect_then_kept:
  "selection_kept s s1 \<or> submit_derived s1 \<Longrightarrow> selection_kept s1 s2 \<Longrightarrow>
     selection_kept s s2 \<or> submit_derived s2"
  by (auto intro: selection_kept_trans derived_kept)

lemma effect_name_input: "selection_kept s (name_input_listener s) \<or> submit_derived (name_input_listener s)"
  by (simp add: name_input_listener_def Let_def selection_kept_refl derived_resetDependentFields)

lemma effect_name_blur: "selection_kept s (name_blur_listener s) \<or> submit_derived (name_blur_listener s)"
  by (simp add: name_blur_listener_def Let_def selection_kept_refl derived_resetDependentFields)

lemma effect_onSelectItem: "selection_kept s (onSelectItem item s) \<or> submit_derived (onSelectItem item s)"
proof (cases "data item")
  case None
  then show ?thesis by (simp add: onSelectItem_def selection_kept_refl)
next
  case (Some d)
  let ?s1 = "removeInlineErrorMessage officialEstablishmentName
                      (removeNoResultsMessage officialEstablishmentName s)"
  have k1: "selection_kept s ?s1"
    by (rule selection_kept_trans [OF kept_messages(3) kept_messages(5)])
  obtain res s2 where h: "handleRedemptionCodeSelection d ?s1 = (res, s2)"
    by (cases "handleRedemptionCodeSelection d ?s1")
  have k2: "selection_kept s s2"
    using selection_kept_trans [OF k1 resolver_only_kept
            [OF resolver_only_handleRedemptionCodeSelection [of ?s1 d]]] h by simp
  show ?thesis
  proof (cases res)
    case Threw
    with Some h k2 show ?thesis by (simp add: onSelectItem_def Let_def)
  next
    case (Returned x)
    with Some h show ?thesis
      by (simp add: onSelectItem_def Let_def derived_update [OF js_or_Null])
  qed
qed

lemma kept_abort: "selection_kept s (abort_controller c s)"
  by (cases c) (simp_all add: abort_controller_def selection_kept_def)

lemma kept_query: "selection_kept s (snd (queryAirtableContains fld q c ch txt s))"
  by (simp add: queryAirtableContains_def Let_def selection_kept_def split_beta
        split: option.splits)

lemma kept_resume: "selection_kept s (snd (queryAirtableContains_resume req how s))"
  by (cases how) (simp_all add: queryAirtableContains_resume_def selection_kept_def)

lemma kept_deliver: "selection_kept s (deliver r s)"
  by (simp add: deliver_def selection_kept_def)

lemma kept_name_search_continue: "selection_kept s (name_search_continue q how s)"
proof (cases how)
  case (Resolved d)
  then show ?thesis
    by (auto simp: name_search_continue_def Let_def
          intro!: selection_kept_trans [OF _ kept_deliver]
                  selection_kept_trans [OF _ kept_messages(4)]
                  selection_kept_trans [OF _ kept_messages(3)]
                  selection_kept_trans [OF kept_messages(1) kept_messages(5)])
next
  case Failed
  then show ?thesis
    by (auto simp: name_search_continue_def
          intro!: selection_kept_trans [OF _ kept_deliver]
                  selection_kept_trans [OF _ kept_messages(6)]
                  selection_kept_trans [OF kept_messages(1) kept_messages(3)])
next
  case AbortError
  then show ?thesis by (simp add: name_search_continue_def kept_messages)
qed

lemma kept_controller_update:
  "selection_kept s (s\<lparr>controllers := n, nameSearchController := c\<rparr>)"
  "selection_kept s (s\<lparr>controllers := n, codeLookupController := c\<rparr>)"
  by (simp_all add: selection_kept_def)

lemma kept_name_source: "selection_kept s (name_source q s)"
proof (cases "has_input officialEstablishmentName s")
  case False
  then show ?thesis by (simp add: name_source_def selection_kept_refl)
next
  case True
  define s1 where "s1 = showInlineSpinner officialEstablishmentName
                    (removeInlineErrorMessage officialEstablishmentName
                       (removeNoResultsMessage officialEstablishmentName s))"
  have k1: "selection_kept s s1"
    unfolding s1_def
    by (rule selection_kept_trans [OF selection_kept_trans
          [OF kept_messages(3) kept_messages(5)] kept_messages(2)])
  show ?thesis
  proof (cases "length q < 2")
    case short: True
    have "selection_kept s (deliver []
                   (removeInlineErrorMessage officialEstablishmentName
                      (removeNoResultsMessage officialEstablishmentName
                         (removeInlineSpinner officialEstablishmentName s1))))"
      by (rule selection_kept_trans [OF selection_kept_trans [OF selection_kept_trans
            [OF selection_kept_trans [OF k1 kept_messages(1)] kept_messages(3)]
            kept_messages(5)] kept_deliver])
    with True short show ?thesis by (simp add: name_source_def Let_def s1_def)
  next
    case long: False
    define s2 where "s2 = abort_controller (nameSearchController s1) s1"
    define s3 where "s3 = s2\<lparr>controllers := Suc (controllers s2),
                            nameSearchController := Some (controllers s2)\<rparr>"
    have k3: "selection_kept s s3"
      unfolding s3_def s2_def
      by (rule selection_kept_trans [OF selection_kept_trans [OF k1 kept_abort]
            kept_controller_update(1)])
    obtain r s4 where q: "queryAirtableContains ''Official Establishment Name'' q
        (controllers s2) NameSearch q s3 = (r, s4)"
      by (cases "queryAirtableContains ''Official Establishment Name'' q
        (controllers s2) NameSearch q s3")
    have k4: "selection_kept s s4"
      using selection_kept_trans [OF k3 kept_query [of s3 "''Official Establishment Name''" q
              "controllers s2" NameSearch q]] q by simp
    have "name_source q s =
        (case r of Some d \<Rightarrow> name_search_continue q (Resolved d) s4 | None \<Rightarrow> s4)"
      using True long q by (simp add: name_source_def Let_def s1_def s2_def s3_def)
    with k4 show ?thesis
      by (cases r) (auto intro: selection_kept_trans [OF _ kept_name_search_continue])
  qed
qed

lemma derived_code_error_branch: "submit_derived (code_error_branch s)"
  by (simp add: code_error_branch_def derived_resetDependentFields)

lemma effect_code_lookup_continue:
  "selection_kept s (code_lookup_continue code how s)
   \<or> submit_derived (code_lookup_continue code how s)"
proof -
  have inner: "selection_kept s x \<or> submit_derived x \<Longrightarrow>
      selection_kept s (removeInlineSpinner redemptionCode x)
      \<or> submit_derived (removeInlineSpinner redemptionCode x)" for x
    by (rule effect_then_kept [OF _ kept_messages(1)])
  show ?thesis
  proof (cases how)
    case Failed
    then show ?thesis
      by (auto simp: code_lookup_continue_def intro!: inner derived_code_error_branch)
  next
    case AbortError
    then show ?thesis
      by (auto simp: code_lookup_continue_def intro!: inner selection_kept_refl)
  next
    case (Resolved d)
    show ?thesis
    proof (cases "records d")
      case None
      with Resolved show ?thesis
        by (auto simp: code_lookup_continue_def intro!: inner derived_code_error_branch)
    next
      case (Some rs)
      show ?thesis
      proof (cases rs)
        case Nil
        with Resolved Some show ?thesis
          by (auto simp: code_lookup_continue_def intro!: inner derived_resetDependentFields)
      next
        case (Cons r rest)
        obtain res s1 where h: "handleRedemptionCodeSelection r
                         (removeInlineErrorMessage redemptionCode
                            (removeNoResultsMessage redemptionCode s)) = (res, s1)"
          by (cases "handleRedemptionCodeSelection r
                         (removeInlineErrorMessage redemptionCode
                            (removeNoResultsMessage redemptionCode s))")
        show ?thesis
        proof (cases res)
          case Threw
          with Resolved Some Cons h show ?thesis
            by (auto simp: code_lookup_continue_def intro!: inner derived_code_error_branch)
        next
          case (Returned x)
          with Resolved Some Cons h show ?thesis
            by (auto simp: code_lookup_continue_def
                  intro!: inner derived_update [OF js_or_Null])
        qed
      qed
    qed
  qed
qed

lemma effect_handleInput: "selection_kept s (handleInput s) \<or> submit_derived (handleInput s)"
proof (cases "has_input redemptionCode s")
  case False
  then show ?thesis by (simp add: handleInput_def selection_kept_refl)
next
  case True
  define code where "code = trim (js_string (input_of redemptionCode s))"
  define s2 where "s2 = upd_field redemptionCode (\<lambda>f. f\<lparr>help_text := None\<rparr>)
                    (removeInlineErrorMessage redemptionCode
                       (removeNoResultsMessage redemptionCode (resetFields [redemptionCode] s)))"
  define s3 where "s3 = abort_controller (codeLookupController s2) s2"
  have k2: "selection_kept s s2"
    unfolding s2_def
    by (rule selection_kept_trans [OF selection_kept_trans [OF selection_kept_trans
          [OF fields_only_kept [OF fields_only_resetFields] kept_messages(3)]
          kept_messages(5)] kept_upd_field])
  have k3: "selection_kept s s3"
    unfolding s3_def by (rule selection_kept_trans [OF k2 kept_abort])
  show ?thesis
  proof (cases "length code = 8")
    case False
    with True show ?thesis
      by (simp add: handleInput_def Let_def code_def [symmetric] derived_resetDependentFields)
  next
    case eight: True
    define s5 where "s5 = showInlineSpinner redemptionCode s3"
    define s6 where "s6 = s5\<lparr>controllers := Suc (controllers s5),
                            codeLookupController := Some (controllers s5)\<rparr>"
    have k6: "selection_kept s s6"
      unfolding s6_def s5_def
      by (rule selection_kept_trans [OF selection_kept_trans [OF k3 kept_messages(2)]
            kept_controller_update(2)])
    obtain r s7 where q: "queryAirtableContains ''Redemption Code'' code (controllers s5)
        CodeLookup code s6 = (r, s7)"
      by (cases "queryAirtableContains ''Redemption Code'' code (controllers s5)
        CodeLookup code s6")
    have k7: "selection_kept s s7"
      using selection_kept_trans [OF k6 kept_query [of s6 "''Redemption Code''" code
              "controllers s5" CodeLookup code]] q by simp
    have "handleInput s =
        (case r of Some d \<Rightarrow> code_lookup_continue code (Resolved d) s7 | None \<Rightarrow> s7)"
      using True eight q
      by (simp add: handleInput_def Let_def code_def [symmetric] s2_def [symmetric]
            s3_def [symmetric] s5_def [symmetric] s6_def [symmetric])
    with k7 effect_trans [OF k7 effect_code_lookup_continue] show ?thesis
      by (cases r) auto
  qed
qed

lemma effect_settle: "selection_kept s (settle i how s) \<or> submit_derived (settle i how s)"
proof (cases "i < length (pending s)")
  case False
  then show ?thesis by (simp add: settle_def selection_kept_refl)
next
  case True
  define req where "req = pending s ! i"
  define s1 where "s1 = s\<lparr>pending := take i (pending s) @ drop (Suc i) (pending s)\<rparr>"
  obtain res s2 where r: "queryAirtableContains_resume req how s1 = (res, s2)"
    by (cases "queryAirtableContains_resume req how s1")
  have k1: "selection_kept s s1" by (simp add: s1_def selection_kept_def)
  have k2: "selection_kept s s2"
    using selection_kept_trans [OF k1 kept_resume [of s1 req how]] r by simp
  have "settle i how s =
      (case req_channel req of
         NameSearch \<Rightarrow> name_search_continue (req_text req) res s2
       | CodeLookup \<Rightarrow> code_lookup_continue (req_text req) res s2)"
    using True r by (simp add: settle_def Let_def req_def [symmetric] s1_def [symmetric])
  with effect_trans [OF k2 effect_code_lookup_continue]
       selection_kept_trans [OF k2 kept_name_search_continue]
  show ?thesis
    by (cases "req_channel req") auto
qed

lemma kept_setMode: "selection_kept s (setMode mode s)"
proof -
  have "selection_kept s (s\<lparr>currentMode := mode\<rparr>)" by (simp add: selection_kept_def)
  then show ?thesis
    by (rule selection_kept_trans [OF _ fields_only_kept [OF fields_only_setMode]])
qed

lemma kept_initializeFields: "selection_kept s (initializeFields scan s)"
proof -
  have "selection_kept s (s\<lparr>form_fields := scan\<rparr>)" by (simp add: selection_kept_def)
  then show ?thesis
    unfolding initializeFields_def
    by (rule selection_kept_trans) (simp add: kept_setMode)
qed

lemma effect_step: "selection_kept s (step s ev) \<or> submit_derived (step s ev)"
proof (cases ev)
  case (UserTypes k v)
  then show ?thesis by (simp add: user_types_def fields_only_kept [OF fields_only_set_input])
next
  case (Online b)
  then show ?thesis by (simp add: selection_kept_def)
next
  case CooldownElapsed
  then show ?thesis by (simp add: cooldown_elapsed_def selection_kept_def)
qed (simp_all add: effect_name_input effect_name_blur kept_name_source effect_onSelectItem
       effect_handleInput effect_settle kept_initializeFields kept_setMode
       fields_only_kept [OF fields_only_clearAndResetForm])

lemma derived_step: "submit_derived s \<Longrightarrow> submit_derived (step s ev)"
  using effect_step [of s ev] by (auto intro: derived_kept)

lemma derived_run: "submit_derived s \<Longrightarrow> submit_derived (run s evs)"
  unfolding run_def by (induction evs arbitrary: s) (simp_all add: derived_step)

lemma derived_initializeSystem: "submit_derived (initializeSystem scan ac form initial_state)"
proof -
  define s2 where "s2 = (let s1 = initializeFields scan initial_state
     in if \<not> autocompleteInstance s1 \<and> has_input officialEstablishmentName s1 \<and> ac
        then s1\<lparr>autocompleteInstance := True\<rparr> else s1)"
  have k: "selection_kept initial_state s2"
    unfolding s2_def Let_def
    using kept_initializeFields [of initial_state scan]
    by (auto simp: selection_kept_def)
  have l: "lastSelectedEstablishment s2 = \<lparr>sel_id = Null, sel_name = Null\<rparr>" "formEl s2 = None"
    using k by (simp_all add: selection_kept_def initial_state_def)
  have e: "initializeSystem scan ac form initial_state =
      (case form of None \<Rightarrow> s2
       | Some submits \<Rightarrow> updateFormSubmitState (s2\<lparr>formEl := Some submits\<rparr>))"
    unfolding initializeSystem_def s2_def Let_def by (rule refl)
  show ?thesis
  proof (cases form)
    case None
    with e l show ?thesis by (simp add: submit_derived_def)
  next
    case (Some submits)
    with e l show ?thesis
      by (simp add: submit_derived_def updateFormSubmitState_def list_all_iff)
  qed
qed

lemma edited_state_selection:
  "lastSelectedEstablishment edited_state = \<lparr>sel_id = Str ''rec1'', sel_name = Str ''Aman Tokyo''\<rparr>"
  "formEl edited_state = Some [\<lparr>disabled = False, btn_aria_disabled = ''false''\<rparr>]"
  using fields_only_proj(3,7) [OF fields_only_set_input, of officialEstablishmentName "''Aman T''"
      selected_state]
  by (simp_all add: edited_state_def user_types_def selected_state_selection)

lemma edited_state_name:
  "has_input officialEstablishmentName edited_state"
  "current_name edited_state = ''Aman T''"
proof -
  from selected_state_fields(1) obtain f
    where f: "form_fields selected_state officialEstablishmentName = Some f"
      and i: "input_value f = Some ''Aman Tokyo''"
    by (cases "form_fields selected_state officialEstablishmentName") auto
  then have e: "form_fields edited_state officialEstablishmentName
      = Some (f\<lparr>input_value := Some ''Aman T''\<rparr>)"
    by (simp add: edited_state_def user_types_def form_fields_set_input)
  show "has_input officialEstablishmentName edited_state"
    by (simp add: has_input_def e)
  show "current_name edited_state = ''Aman T''"
    by (simp add: current_name_def input_of_def e js_or_def eval_strings)
qed


lemma widget_updateFormSubmitState:
  "autocompleteInstance (updateFormSubmitState s) = autocompleteInstance s"
  by (cases "formEl s") (simp_all add: updateFormSubmitState_def Let_def)

lemma widget_onSelectItem:
  "autocompleteInstance (onSelectItem item s) = autocompleteInstance s"
proof (cases "data item")
  case None
  then show ?thesis by (simp add: onSelectItem_def)
next
  case (Some d)
  let ?s1 = "removeInlineErrorMessage officialEstablishmentName
               (removeNoResultsMessage officialEstablishmentName s)"
  obtain res s2 where h: "handleRedemptionCodeSelection d ?s1 = (res, s2)"
    by (cases "handleRedemptionCodeSelection d ?s1")
  have k: "fields_only s ?s1"
    unfolding removeInlineErrorMessage_def removeNoResultsMessage_def
    by (rule fields_only_trans [OF fields_only_upd_field fields_only_upd_field])
  have r: "resolver_only s s2"
    using resolver_only_trans [OF fields_only_resolver_only [OF k]
            resolver_only_handleRedemptionCodeSelection [of ?s1 d]] h by simp
  have w: "autocompleteInstance s2 = autocompleteInstance s"
    by (rule resolver_only_proj(2) [OF r])
  show ?thesis
    using Some h w
    by (cases res) (simp_all add: onSelectItem_def Let_def widget_updateFormSubmitState)
qed

lemma edited_state_widget: "autocompleteInstance edited_state"
  using fields_only_proj(2) [OF fields_only_set_input, of officialEstablishmentName "''Aman T''"
      selected_state]
  by (simp add: edited_state_def user_types_def selected_state_def widget_onSelectItem
        example_state_rest)

lemma edited_state_invalidated:
  "lastSelectedEstablishment (name_input_listener edited_state)
     = \<lparr>sel_id = Null, sel_name = Null\<rparr>"
  "formEl (name_input_listener edited_state)
     = Some [\<lparr>disabled = True, btn_aria_disabled = ''true''\<rparr>]"
proof -
  have "name_input_listener edited_state
      = resetDependentFields [officialEstablishmentName, redemptionCode] edited_state"
    by (simp add: name_input_listener_def Let_def edited_state_name edited_state_selection
          edited_state_widget)
  then show "lastSelectedEstablishment (name_input_listener edited_state)
     = \<lparr>sel_id = Null, sel_name = Null\<rparr>"
    and "formEl (name_input_listener edited_state)
     = Some [\<lparr>disabled = True, btn_aria_disabled = ''true''\<rparr>]"
    by (simp_all add: resetDependentFields_eq edited_state_selection)
qed

section \<open>Requests and the code lookup\<close>

lemma dropWhile_id: "xs = [] \<or> \<not> P (hd xs) \<Longrightarrow> dropWhile P xs = xs"
  by (cases xs) auto

lemma trim_trim: "trim (trim s) = trim s"
proof -
  define a where "a = dropWhile is_space s"
  define b where "b = dropWhile is_space (rev a)"
  have t: "trim s = rev b" by (simp add: trim_def a_def b_def)
  have hb: "b = [] \<or> \<not> is_space (hd b)"
    unfolding b_def using hd_dropWhile [of is_space "rev a"] by blast
  have ha: "a = [] \<or> \<not> is_space (hd a)"
    unfolding a_def using hd_dropWhile [of is_space s] by blast
  obtain ws where ws: "rev a = ws @ b"
    unfolding b_def using takeWhile_dropWhile_id [of is_space "rev a"] by metis
  then have a: "a = rev b @ rev ws" by (metis rev_append rev_rev_ident)
  have hrb: "rev b = [] \<or> \<not> is_space (hd (rev b))"
  proof (cases "rev b = []")
    case True then show ?thesis by simp
  next
    case False
    then have "hd a = hd (rev b)" using a by simp
    moreover have "a \<noteq> []" using a False by simp
    ultimately show ?thesis using ha by simp
  qed
  have "dropWhile is_space (rev b) = rev b"
    using hrb by (rule dropWhile_id [where P = is_space and xs = "rev b"])
  moreover have "dropWhile is_space b = b"
    using hb by (rule dropWhile_id [where P = is_space and xs = b])
  ultimately show ?thesis unfolding t by (simp add: trim_def)
qed

lemma fst_cacheGet: "fst (cacheGet c k) = map_of c k"
proof (cases "map_of c k")
  case None
  then show ?thesis by (simp add: cacheGet_def map_get_def)
next
  case (Some v)
  then have "k \<in> fst ` set c" using map_of_eq_None_iff [of c k] by auto
  with Some show ?thesis by (simp add: cacheGet_def map_get_def map_has_def)
qed

lemma requests_kept_refl: "requests_kept s s"
  by (simp add: requests_kept_def)

lemma requests_kept_trans:
  "requests_kept s s1 \<Longrightarrow> requests_kept s1 s2 \<Longrightarrow> requests_kept s s2"
  by (simp add: requests_kept_def)

lemma fields_only_requests: "fields_only s s' \<Longrightarrow> requests_kept s s'"
  by (simp add: requests_kept_def fields_only_proj)

lemma resolver_only_requests: "resolver_only s s' \<Longrightarrow> requests_kept s s'"
  by (simp add: requests_kept_def resolver_only_proj)

lemma requests_upd_field: "requests_kept s (upd_field k g s)"
  by (rule fields_only_requests) (rule fields_only_upd_field)

lemma requests_messages:
  "requests_kept s (removeInlineSpinner k s)"
  "requests_kept s (showInlineSpinner k s)"
  "requests_kept s (removeNoResultsMessage k s)"
  "requests_kept s (showNoResultsMessage k q ty s)"
  "requests_kept s (removeInlineErrorMessage k s)"
  "requests_kept s (showInlineErrorMessage k m s)"
  by (simp_all add: removeInlineSpinner_def showInlineSpinner_def removeNoResultsMessage_def
        showNoResultsMessage_def removeInlineErrorMessage_def showInlineErrorMessage_def
        requests_upd_field)

lemma requests_resetDependentFields: "requests_kept s (resetDependentFields ex s)"
  by (simp add: resetDependentFields_eq requests_kept_def)

lemma requests_updateFormSubmitState: "requests_kept s (updateFormSubmitState s)"
  by (cases "formEl s") (simp_all add: updateFormSubmitState_def requests_kept_def Let_def)

lemma requests_selection_update:
  "requests_kept s (s\<lparr>lastSelectedEstablishment := l\<rparr>)"
  by (simp add: requests_kept_def)

lemma requests_code_error_branch: "requests_kept s (code_error_branch s)"
  unfolding code_error_branch_def
  by (rule requests_kept_trans [OF requests_kept_trans [OF requests_messages(3)
        requests_messages(6)] requests_resetDependentFields])

lemma requests_code_lookup_continue: "requests_kept s (code_lookup_continue code how s)"
proof -
  have inner: "requests_kept s x \<Longrightarrow> requests_kept s (removeInlineSpinner redemptionCode x)" for x
    by (rule requests_kept_trans [OF _ requests_messages(1)])
  show ?thesis
  proof (cases how)
    case Failed
    then show ?thesis by (simp add: code_lookup_continue_def inner requests_code_error_branch)
  next
    case AbortError
    then show ?thesis by (simp add: code_lookup_continue_def inner requests_kept_refl)
  next
    case (Resolved d)
    show ?thesis
    proof (cases "records d")
      case None
      with Resolved show ?thesis
        by (simp add: code_lookup_continue_def inner requests_code_error_branch)
    next
      case (Some rs)
      show ?thesis
      proof (cases rs)
        case Nil
        with Resolved Some show ?thesis
          by (simp add: code_lookup_continue_def inner
                requests_kept_trans [OF requests_messages(4) requests_resetDependentFields])
      next
        case (Cons r rest)
        let ?s0 = "removeInlineErrorMessage redemptionCode (removeNoResultsMessage redemptionCode s)"
        obtain res s1 where h: "handleRedemptionCodeSelection r ?s0 = (res, s1)"
          by (cases "handleRedemptionCodeSelection r ?s0")
        have k0: "requests_kept s ?s0"
          by (rule requests_kept_trans [OF requests_messages(3) requests_messages(5)])
        have k1: "requests_kept s s1"
          using requests_kept_trans [OF k0 resolver_only_requests
                  [OF resolver_only_handleRedemptionCodeSelection [of ?s0 r]]] h by simp
        show ?thesis
        proof (cases res)
          case Threw
          with Resolved Some Cons h show ?thesis
            by (simp add: code_lookup_continue_def inner
                  requests_kept_trans [OF k1 requests_code_error_branch])
        next
          case (Returned x)
          with Resolved Some Cons h show ?thesis
            by (simp add: code_lookup_continue_def inner
                  requests_kept_trans [OF requests_kept_trans [OF k1 requests_selection_update]
                    requests_updateFormSubmitState])
        qed
      qed
    qed
  qed
qed

lemmas message_defs =
  removeInlineSpinner_def showInlineSpinner_def removeNoResultsMessage_def
  showNoResultsMessage_def removeInlineErrorMessage_def showInlineErrorMessage_def

lemma resetField_idem: "resetField (resetField f) = resetField f"
  by (simp add: resetField_def select_set_index_def select_set_value_def split: option.splits)

lemma handleInput_wrong_length:
  assumes "has_input redemptionCode s"
    and "length (trim (js_string (input_of redemptionCode s))) \<noteq> 8"
  shows "handleInput s =
     s\<lparr>form_fields := (\<lambda>k. if k = redemptionCode
            then map_option (\<lambda>f. f\<lparr>no_results := None, inline_error := None,
                                    help_text := Some code_length_help\<rparr>)
                   (form_fields s redemptionCode)
            else map_option resetField (form_fields s k)),
       aborted := (case codeLookupController s of None \<Rightarrow> aborted s
                   | Some c \<Rightarrow> c # aborted s),
       lastSelectedEstablishment := \<lparr>sel_id = Null, sel_name = Null\<rparr>,
       formEl := map_option (map (\<lambda>btn. btn\<lparr>disabled := True, btn_aria_disabled := ''true''\<rparr>))
                   (formEl s)\<rparr>"
proof -
  have F: "(\<lambda>k. if k = redemptionCode \<or> k = officialEstablishmentName
        then if k = redemptionCode
             then map_option (\<lambda>f. f\<lparr>no_results := None, inline_error := None,
                                      help_text := Some code_length_help\<rparr>)
                    (form_fields s redemptionCode)
             else map_option resetField (form_fields s k)
        else map_option resetField
              (if k = redemptionCode
               then map_option (\<lambda>f. f\<lparr>no_results := None, inline_error := None,
                                      help_text := Some code_length_help\<rparr>)
                    (form_fields s redemptionCode)
               else map_option resetField (form_fields s k)))
     = (\<lambda>k. if k = redemptionCode
            then map_option (\<lambda>f. f\<lparr>no_results := None, inline_error := None,
                                    help_text := Some code_length_help\<rparr>)
                   (form_fields s redemptionCode)
            else map_option resetField (form_fields s k))"
    by (auto simp: fun_eq_iff option.map_comp comp_def resetField_idem)
  show ?thesis
    using assms
    by (cases "codeLookupController s")
       (simp_all add: handleInput_def Let_def resetDependentFields_eq upd_field_eq resetFields_def
          abort_controller_def message_defs option.map_comp comp_def F cong: if_cong)
qed



lemmas eval_gateway =
  run_def user_types_def set_input_def upd_field_eq handleInput_def settle_def
  queryAirtableContains_def queryAirtableContains_resume_def code_lookup_continue_def
  resetDependentFields_eq resetFields_def abort_controller_def message_defs
  has_input_def input_of_def cacheKey_of_def cacheGet_def cacheSet_def map_has_def map_get_def
  map_delete_def map_size_def MAX_CACHE_def Let_def
  example_state_fields example_state_rest example_fields_def text_field_def mode_effect_def
  config_of_def MODES_def eval_strings





lemma handleInput_eight_requests:
  assumes "has_input redemptionCode s"
    and "code = trim (js_string (input_of redemptionCode s))"
    and "length code = 8"
  shows "aborted (handleInput s) =
           (case codeLookupController s of None \<Rightarrow> aborted s | Some c \<Rightarrow> c # aborted s)"
    and "controllers (handleInput s) = Suc (controllers s)"
    and "codeLookupController (handleInput s) = Some (controllers s)"
    and "nameSearchController (handleInput s) = nameSearchController s"
    and "pending (handleInput s) =
           (if map_of (airtableCache s) (cacheKey_of ''Redemption Code'' code) = None
            then pending s @ [code_request s code] else pending s)"
proof -
  define s2 where "s2 = upd_field redemptionCode (\<lambda>f. f\<lparr>help_text := None\<rparr>)
                    (removeInlineErrorMessage redemptionCode
                       (removeNoResultsMessage redemptionCode (resetFields [redemptionCode] s)))"
  define s5 where "s5 = showInlineSpinner redemptionCode (abort_controller (codeLookupController s2) s2)"
  define s6 where "s6 = s5\<lparr>controllers := Suc (controllers s5),
                          codeLookupController := Some (controllers s5)\<rparr>"
  have p2: "pending s2 = pending s" "aborted s2 = aborted s"
      "controllers s2 = controllers s" "airtableCache s2 = airtableCache s"
      "codeLookupController s2 = codeLookupController s"
      "nameSearchController s2 = nameSearchController s"
    by (simp_all add: s2_def upd_field_eq resetFields_def message_defs)
  have p5: "pending s5 = pending s"
      "aborted s5 = (case codeLookupController s of None \<Rightarrow> aborted s | Some c \<Rightarrow> c # aborted s)"
      "controllers s5 = controllers s" "airtableCache s5 = airtableCache s"
      "nameSearchController s5 = nameSearchController s"
    by (cases "codeLookupController s";
        simp add: s5_def upd_field_eq message_defs abort_controller_def p2)+
  have p6: "pending s6 = pending s"
      "aborted s6 = (case codeLookupController s of None \<Rightarrow> aborted s | Some c \<Rightarrow> c # aborted s)"
      "controllers s6 = Suc (controllers s)" "airtableCache s6 = airtableCache s"
      "nameSearchController s6 = nameSearchController s"
      "codeLookupController s6 = Some (controllers s)"
    by (simp_all add: s6_def p5)
  have tc: "trim code = code" unfolding assms(2) by (rule trim_trim)
  have ne: "code \<noteq> []" using assms(3) by auto
  have h: "handleInput s =
      (case queryAirtableContains ''Redemption Code'' code (controllers s5) CodeLookup code s6 of
         (Some d, s7) \<Rightarrow> code_lookup_continue code (Resolved d) s7
       | (None, s7) \<Rightarrow> s7)"
    using assms(1,3)
    by (simp add: handleInput_def Let_def assms(2) [symmetric] s2_def [symmetric]
          s5_def [symmetric] s6_def [symmetric])
  obtain cached cache' where cg: "cacheGet (airtableCache s) (cacheKey_of ''Redemption Code'' code)
      = (cached, cache')"
    by (cases "cacheGet (airtableCache s) (cacheKey_of ''Redemption Code'' code)")
  then have cached: "cached = map_of (airtableCache s) (cacheKey_of ''Redemption Code'' code)"
    using fst_cacheGet [of "airtableCache s" "cacheKey_of ''Redemption Code'' code"] by simp
  have all: "aborted (handleInput s) =
           (case codeLookupController s of None \<Rightarrow> aborted s | Some c \<Rightarrow> c # aborted s)
      \<and> controllers (handleInput s) = Suc (controllers s)
      \<and> codeLookupController (handleInput s) = Some (controllers s)
      \<and> nameSearchController (handleInput s) = nameSearchController s
      \<and> pending (handleInput s) =
           (if map_of (airtableCache s) (cacheKey_of ''Redemption Code'' code) = None
            then pending s @ [code_request s code] else pending s)"
  proof (cases cached)
    case None
    with cached cg show ?thesis
      by (simp add: h queryAirtableContains_def Let_def tc ne p6 p5 code_request_def)
  next
    case (Some d)
    then have "handleInput s = code_lookup_continue code (Resolved d) (s6\<lparr>airtableCache := cache'\<rparr>)"
      using cached cg
      by (simp add: h queryAirtableContains_def Let_def tc ne p6)
    moreover have "requests_kept (s6\<lparr>airtableCache := cache'\<rparr>)
        (code_lookup_continue code (Resolved d) (s6\<lparr>airtableCache := cache'\<rparr>))"
      by (rule requests_code_lookup_continue)
    ultimately show ?thesis using Some cached by (simp add: requests_kept_def p6)
  qed
  then show "aborted (handleInput s) =
           (case codeLookupController s of None \<Rightarrow> aborted s | Some c \<Rightarrow> c # aborted s)"
    and "controllers (handleInput s) = Suc (controllers s)"
    and "codeLookupController (handleInput s) = Some (controllers s)"
    and "nameSearchController (handleInput s) = nameSearchController s"
    and "pending (handleInput s) =
           (if map_of (airtableCache s) (cacheKey_of ''Redemption Code'' code) = None
            then pending s @ [code_request s code] else pending s)"
    by simp_all
qed

lemma requests_deliver: "requests_kept s (deliver r s)"
  by (simp add: deliver_def requests_kept_def)

lemma requests_name_search_continue: "requests_kept s (name_search_continue q how s)"
proof (cases how)
  case (Resolved d)
  then show ?thesis
    by (auto simp: name_search_continue_def Let_def
          intro!: requests_kept_trans [OF _ requests_deliver]
                  requests_kept_trans [OF _ requests_messages(4)]
                  requests_kept_trans [OF _ requests_messages(3)]
                  requests_kept_trans [OF requests_messages(1) requests_messages(5)])
next
  case Failed
  then show ?thesis
    by (auto simp: name_search_continue_def
          intro!: requests_kept_trans [OF _ requests_deliver]
                  requests_kept_trans [OF _ requests_messages(6)]
                  requests_kept_trans [OF requests_messages(1) requests_messages(3)])
next
  case AbortError
  then show ?thesis by (simp add: name_search_continue_def requests_messages)
qed

lemma name_source_short:
  assumes "\<not> has_input officialEstablishmentName s \<or> length q < 2"
  shows "requests_kept s (name_source q s)"
proof (cases "has_input officialEstablishmentName s")
  case False
  then show ?thesis by (simp add: name_source_def requests_kept_refl)
next
  case True
  with assms have "length q < 2" by simp
  with True show ?thesis
    by (simp add: name_source_def Let_def requests_kept_def upd_field_eq message_defs
          deliver_def)
qed

lemma name_source_long_requests:
  assumes "has_input officialEstablishmentName s" and "\<not> length q < 2"
  shows "aborted (name_source q s) =
           (case nameSearchController s of None \<Rightarrow> aborted s | Some c \<Rightarrow> c # aborted s)"
    and "controllers (name_source q s) = Suc (controllers s)"
    and "nameSearchController (name_source q s) = Some (controllers s)"
    and "codeLookupController (name_source q s) = codeLookupController s"
    and "pending (name_source q s) =
           (if trim q \<noteq> [] \<and> map_of (airtableCache s)
                 (cacheKey_of ''Official Establishment Name'' (trim q)) = None
            then pending s @ [name_request s q] else pending s)"
proof -
  define s1 where "s1 = showInlineSpinner officialEstablishmentName
                    (removeInlineErrorMessage officialEstablishmentName
                       (removeNoResultsMessage officialEstablishmentName s))"
  define s2 where "s2 = abort_controller (nameSearchController s1) s1"
  define s3 where "s3 = s2\<lparr>controllers := Suc (controllers s2),
                          nameSearchController := Some (controllers s2)\<rparr>"
  have p1: "pending s1 = pending s" "aborted s1 = aborted s"
      "controllers s1 = controllers s" "airtableCache s1 = airtableCache s"
      "codeLookupController s1 = codeLookupController s"
      "nameSearchController s1 = nameSearchController s"
    by (simp_all add: s1_def upd_field_eq message_defs)
  have p2: "pending s2 = pending s"
      "aborted s2 = (case nameSearchController s of None \<Rightarrow> aborted s | Some c \<Rightarrow> c # aborted s)"
      "controllers s2 = controllers s" "airtableCache s2 = airtableCache s"
      "codeLookupController s2 = codeLookupController s"
    by (cases "nameSearchController s"; simp add: s2_def abort_controller_def p1)+
  have p3: "pending s3 = pending s"
      "aborted s3 = (case nameSearchController s of None \<Rightarrow> aborted s | Some c \<Rightarrow> c # aborted s)"
      "controllers s3 = Suc (controllers s)" "airtableCache s3 = airtableCache s"
      "codeLookupController s3 = codeLookupController s"
      "nameSearchController s3 = Some (controllers s)"
    by (simp_all add: s3_def p2)
  have h: "name_source q s =
      (case queryAirtableContains ''Official Establishment Name'' q (controllers s2)
              NameSearch q s3 of
         (Some d, s4) \<Rightarrow> name_search_continue q (Resolved d) s4
       | (None, s4) \<Rightarrow> s4)"
    using assms
    by (simp add: name_source_def Let_def s1_def [symmetric] s2_def [symmetric]
          s3_def [symmetric])
  obtain cached cache' where cg:
    "cacheGet (airtableCache s) (cacheKey_of ''Official Establishment Name'' (trim q))
      = (cached, cache')"
    by (cases "cacheGet (airtableCache s) (cacheKey_of ''Official Establishment Name'' (trim q))")
  then have cached:
    "cached = map_of (airtableCache s) (cacheKey_of ''Official Establishment Name'' (trim q))"
    using fst_cacheGet [of "airtableCache s"
            "cacheKey_of ''Official Establishment Name'' (trim q)"] by simp
  have all: "aborted (name_source q s) =
           (case nameSearchController s of None \<Rightarrow> aborted s | Some c \<Rightarrow> c # aborted s)
      \<and> controllers (name_source q s) = Suc (controllers s)
      \<and> nameSearchController (name_source q s) = Some (controllers s)
      \<and> codeLookupController (name_source q s) = codeLookupController s
      \<and> pending (name_source q s) =
           (if trim q \<noteq> [] \<and> map_of (airtableCache s)
                 (cacheKey_of ''Official Establishment Name'' (trim q)) = None
            then pending s @ [name_request s q] else pending s)"
  proof (cases "trim q = []")
    case True
    then have "name_source q s = name_search_continue q (Resolved \<lparr>records = Some []\<rparr>) s3"
      by (simp add: h queryAirtableContains_def Let_def)
    moreover have "requests_kept s3 (name_search_continue q (Resolved \<lparr>records = Some []\<rparr>) s3)"
      by (rule requests_name_search_continue)
    ultimately show ?thesis using True by (simp add: requests_kept_def p3)
  next
    case False
    show ?thesis
    proof (cases cached)
      case None
      with cached cg False show ?thesis
        by (simp add: h queryAirtableContains_def Let_def p3 p2 name_request_def)
    next
      case (Some d)
      then have "name_source q s = name_search_continue q (Resolved d) (s3\<lparr>airtableCache := cache'\<rparr>)"
        using cached cg False
        by (simp add: h queryAirtableContains_def Let_def p3)
      moreover have "requests_kept (s3\<lparr>airtableCache := cache'\<rparr>)
          (name_search_continue q (Resolved d) (s3\<lparr>airtableCache := cache'\<rparr>))"
        by (rule requests_name_search_continue)
      ultimately show ?thesis using Some cached False by (simp add: requests_kept_def p3)
    qed
  qed
  then show "aborted (name_source q s) =
           (case nameSearchController s of None \<Rightarrow> aborted s | Some c \<Rightarrow> c # aborted s)"
    and "controllers (name_source q s) = Suc (controllers s)"
    and "nameSearchController (name_source q s) = Some (controllers s)"
    and "codeLookupController (name_source q s) = codeLookupController s"
    and "pending (name_source q s) =
           (if trim q \<noteq> [] \<and> map_of (airtableCache s)
                 (cacheKey_of ''Official Establishment Name'' (trim q)) = None
            then pending s @ [name_request s q] else pending s)"
    by simp_all
qed

section \<open>Superseded requests\<close>

lemma superseded_kept:
  assumes "superseded_aborted s" and "requests_kept s s'"
  shows "superseded_aborted s'"
proof -
  from assms(2) have "pending s' = pending s" "aborted s' = aborted s"
    "controllers s' = controllers s" "nameSearchController s' = nameSearchController s"
    "codeLookupController s' = codeLookupController s"
    by (simp_all add: requests_kept_def)
  then have "superseded_aborted s' = superseded_aborted s"
    by (simp only: superseded_aborted_def current_controller_def)
  with assms(1) show ?thesis by simp
qed

lemma sorted_wrt_remove:
  "sorted_wrt P xs \<Longrightarrow> sorted_wrt P (take i xs @ drop (Suc i) xs)"
proof -
  assume s: "sorted_wrt P xs"
  have "xs = take i xs @ drop i xs" by simp
  with s have s1: "sorted_wrt P (take i xs @ drop i xs)" by simp
  have d: "set (drop (Suc i) xs) \<subseteq> set (drop i xs)"
    by (metis drop_Suc set_drop_subset tl_drop drop_drop plus_1_eq_Suc)
  have "sorted_wrt P (drop (Suc i) xs)" using s by (rule sorted_wrt_drop)
  with s1 d show ?thesis unfolding sorted_wrt_append by blast
qed

lemma superseded_remove:
  assumes "superseded_aborted s"
    and "pending s' = take i (pending s) @ drop (Suc i) (pending s)"
    and "aborted s' = aborted s" and "controllers s' = controllers s"
    and "nameSearchController s' = nameSearchController s"
    and "codeLookupController s' = codeLookupController s"
  shows "superseded_aborted s'"
proof -
  have sub: "set (pending s') \<subseteq> set (pending s)"
    unfolding assms(2) using set_take_subset [of i "pending s"] set_drop_subset [of "Suc i" "pending s"]
    by auto
  have d: "sorted_wrt (<) (map req_controller (pending s'))"
  proof -
    from assms(1) have "sorted_wrt (<) (map req_controller (pending s))"
      by (simp add: superseded_aborted_def)
    then have "sorted_wrt (<) (take i (map req_controller (pending s))
                         @ drop (Suc i) (map req_controller (pending s)))"
      by (rule sorted_wrt_remove)
    then show ?thesis unfolding assms(2) by (simp add: take_map drop_map)
  qed
  from assms(1) sub d show ?thesis
    unfolding superseded_aborted_def current_controller_def assms(3-6) list_all_iff
    by blast
qed

lemma superseded_abort_only:
  assumes "superseded_aborted s"
    and "pending s' = pending s"
    and "set (aborted s) \<subseteq> set (aborted s')" and "controllers s' = controllers s"
    and "nameSearchController s' = nameSearchController s"
    and "codeLookupController s' = codeLookupController s"
  shows "superseded_aborted s'"
proof -
  have c: "current_controller ch s' = current_controller ch s" for ch
    by (cases ch) (simp_all add: current_controller_def assms(5,6))
  from assms(1,3) show ?thesis
    unfolding superseded_aborted_def c assms(2,4-6) list_all_iff
    by (auto split: option.splits)
qed

lemma superseded_issue:
  assumes "superseded_aborted s"
    and "aborted s' = (case current_controller ch s of None \<Rightarrow> aborted s | Some c \<Rightarrow> c # aborted s)"
    and "controllers s' = Suc (controllers s)"
    and "current_controller ch s' = Some (controllers s)"
    and "\<And>ch'. ch' \<noteq> ch \<Longrightarrow> current_controller ch' s' = current_controller ch' s"
    and "pending s' = pending s \<or>
         (\<exists>r. pending s' = pending s @ [r] \<and> req_controller r = controllers s
              \<and> req_channel r = ch)"
  shows "superseded_aborted s'"
proof -
  from assms(1) have old: "\<And>r. r \<in> set (pending s) \<Longrightarrow>
       (\<exists>c. current_controller (req_channel r) s = Some c \<and> req_controller r \<le> c
           \<and> (req_controller r = c \<or> req_controller r \<in> set (aborted s)))"
    and sorted: "sorted_wrt (<) (map req_controller (pending s))"
    and bn: "case nameSearchController s of None \<Rightarrow> True | Some c \<Rightarrow> c < controllers s"
    and bc: "case codeLookupController s of None \<Rightarrow> True | Some c \<Rightarrow> c < controllers s"
    by (auto simp: superseded_aborted_def list_all_iff split: option.splits)
  have bound: "c < controllers s" if "current_controller ch' s = Some c" for ch' c
    using that bn bc by (cases ch') (auto simp: current_controller_def)
  have ab: "set (aborted s) \<subseteq> set (aborted s')"
    unfolding assms(2) by (cases "current_controller ch s") auto
  have old': "\<exists>c. current_controller (req_channel r) s' = Some c \<and> req_controller r \<le> c
           \<and> (req_controller r = c \<or> req_controller r \<in> set (aborted s'))"
    if "r \<in> set (pending s)" for r
  proof -
    from old [OF that] obtain c where c: "current_controller (req_channel r) s = Some c"
      and le: "req_controller r \<le> c"
      and live: "req_controller r = c \<or> req_controller r \<in> set (aborted s)"
      by blast
    show ?thesis
    proof (cases "req_channel r = ch")
      case False
      with c le live assms(5) [of "req_channel r"] ab show ?thesis by auto
    next
      case True
      have "req_controller r \<in> set (aborted s')"
        using live c True ab unfolding assms(2) by auto
      moreover have "req_controller r \<le> controllers s"
        using le bound [OF c] by simp
      ultimately show ?thesis using True assms(4) by simp
    qed
  qed
  have bounds: "(case nameSearchController s' of None \<Rightarrow> True | Some c \<Rightarrow> c < controllers s')
      \<and> (case codeLookupController s' of None \<Rightarrow> True | Some c \<Rightarrow> c < controllers s')"
  proof (cases ch)
    case NameSearch
    with assms(4) assms(5) [of CodeLookup] bc assms(3) show ?thesis
      by (auto simp: current_controller_def split: option.splits)
  next
    case CodeLookup
    with assms(4) assms(5) [of NameSearch] bn assms(3) show ?thesis
      by (auto simp: current_controller_def split: option.splits)
  qed
  have all_old: "list_all (\<lambda>r. case current_controller (req_channel r) s' of
                      None \<Rightarrow> False
                    | Some c \<Rightarrow> req_controller r \<le> c
                        \<and> (req_controller r = c \<or> req_controller r \<in> set (aborted s')))
        (pending s)"
    unfolding list_all_iff
  proof
    fix r assume "r \<in> set (pending s)"
    from old' [OF this] obtain c where "current_controller (req_channel r) s' = Some c"
      and "req_controller r \<le> c"
      and "req_controller r = c \<or> req_controller r \<in> set (aborted s')" by blast
    then show "case current_controller (req_channel r) s' of None \<Rightarrow> False
         | Some c \<Rightarrow> req_controller r \<le> c
               \<and> (req_controller r = c \<or> req_controller r \<in> set (aborted s'))"
      by simp
  qed
  from assms(6) show ?thesis
  proof
    assume p: "pending s' = pending s"
    with all_old sorted bounds show ?thesis
      by (simp add: superseded_aborted_def)
  next
    assume "\<exists>r. pending s' = pending s @ [r] \<and> req_controller r = controllers s
              \<and> req_channel r = ch"
    then obtain r where p: "pending s' = pending s @ [r]"
      and rc: "req_controller r = controllers s" and rch: "req_channel r = ch"
      by blast
    have less: "req_controller x < controllers s" if "x \<in> set (pending s)" for x
      using old [OF that] bound by force
    have "sorted_wrt (<) (map req_controller (pending s @ [r]))"
      using sorted less rc by (simp add: sorted_wrt_append)
    with p rc rch all_old bounds assms(4) show ?thesis
      by (simp add: superseded_aborted_def)
  qed
qed

lemma superseded_earlier_aborted:
  assumes "superseded_aborted s" and "i < j" and "j < length (pending s)"
    and "req_channel (pending s ! i) = req_channel (pending s ! j)"
  shows "req_controller (pending s ! i) \<in> set (aborted s)"
proof -
  let ?ri = "pending s ! i" and ?rj = "pending s ! j"
  from assms(1) have all: "\<And>r. r \<in> set (pending s) \<Longrightarrow>
       (\<exists>c. current_controller (req_channel r) s = Some c \<and> req_controller r \<le> c
           \<and> (req_controller r = c \<or> req_controller r \<in> set (aborted s)))"
    and sorted: "sorted_wrt (<) (map req_controller (pending s))"
    by (auto simp: superseded_aborted_def list_all_iff split: option.splits)
  have lt: "req_controller ?ri < req_controller ?rj"
    using sorted_wrt_nth_less [OF sorted, of i j] assms(2,3) by simp
  have mi: "?ri \<in> set (pending s)" and mj: "?rj \<in> set (pending s)"
    using assms(2,3) by simp_all
  from all [OF mi] obtain c where c: "current_controller (req_channel ?ri) s = Some c"
    and live: "req_controller ?ri = c \<or> req_controller ?ri \<in> set (aborted s)" by blast
  from all [OF mj] c assms(4) have "req_controller ?rj \<le> c" by auto
  with lt live show ?thesis by auto
qed

lemma requests_name_listeners:
  "requests_kept s (name_input_listener s)"
  "requests_kept s (name_blur_listener s)"
  by (simp_all add: name_input_listener_def name_blur_listener_def Let_def requests_kept_refl
        requests_resetDependentFields
        requests_kept_trans [OF requests_resetDependentFields requests_resetDependentFields])

lemma requests_onSelectItem: "requests_kept s (onSelectItem item s)"
proof (cases "data item")
  case None
  then show ?thesis by (simp add: onSelectItem_def requests_kept_refl)
next
  case (Some d)
  let ?s1 = "removeInlineErrorMessage officialEstablishmentName
                      (removeNoResultsMessage officialEstablishmentName s)"
  have k1: "requests_kept s ?s1"
    by (rule requests_kept_trans [OF requests_messages(3) requests_messages(5)])
  obtain res s2 where h: "handleRedemptionCodeSelection d ?s1 = (res, s2)"
    by (cases "handleRedemptionCodeSelection d ?s1")
  have k2: "requests_kept s s2"
    using requests_kept_trans [OF k1 resolver_only_requests
            [OF resolver_only_handleRedemptionCodeSelection [of ?s1 d]]] h by simp
  show ?thesis
  proof (cases res)
    case Threw
    with Some h k2 show ?thesis by (simp add: onSelectItem_def Let_def)
  next
    case (Returned x)
    with Some h show ?thesis
      by (simp add: onSelectItem_def Let_def
            requests_kept_trans [OF requests_kept_trans [OF k2 requests_selection_update]
              requests_updateFormSubmitState])
  qed
qed

lemma requests_setMode: "requests_kept s (setMode mode s)"
proof -
  have "requests_kept s (s\<lparr>currentMode := mode\<rparr>)" by (simp add: requests_kept_def)
  then show ?thesis
    by (rule requests_kept_trans [OF _ fields_only_requests [OF fields_only_setMode]])
qed

lemma requests_initializeFields: "requests_kept s (initializeFields scan s)"
proof -
  have "requests_kept s (s\<lparr>form_fields := scan\<rparr>)" by (simp add: requests_kept_def)
  then show ?thesis
    unfolding initializeFields_def
    by (rule requests_kept_trans) (simp add: requests_setMode)
qed

lemma superseded_name_source:
  assumes "superseded_aborted s"
  shows "superseded_aborted (name_source q s)"
proof (cases "\<not> has_input officialEstablishmentName s \<or> length q < 2")
  case True
  then show ?thesis using assms by (auto intro: superseded_kept name_source_short)
next
  case False
  then have hi: "has_input officialEstablishmentName s" and lg: "\<not> length q < 2" by simp_all
  note p = name_source_long_requests [OF hi lg]
  show ?thesis
  proof (rule superseded_issue [OF assms, where ch = NameSearch])
    show "aborted (name_source q s) =
        (case current_controller NameSearch s of None \<Rightarrow> aborted s | Some c \<Rightarrow> c # aborted s)"
      by (simp add: p current_controller_def)
    show "controllers (name_source q s) = Suc (controllers s)" by (rule p(2))
    show "current_controller NameSearch (name_source q s) = Some (controllers s)"
      by (simp add: p current_controller_def)
    show "current_controller ch' (name_source q s) = current_controller ch' s"
      if "ch' \<noteq> NameSearch" for ch'
      using that by (cases ch') (simp_all add: p current_controller_def)
    show "pending (name_source q s) = pending s \<or>
         (\<exists>r. pending (name_source q s) = pending s @ [r] \<and> req_controller r = controllers s
              \<and> req_channel r = NameSearch)"
      by (simp add: p name_request_def)
  qed
qed

lemma superseded_handleInput:
  assumes "superseded_aborted s"
  shows "superseded_aborted (handleInput s)"
proof (cases "has_input redemptionCode s")
  case False
  then show ?thesis using assms by (simp add: handleInput_def)
next
  case True
  define code where "code = trim (js_string (input_of redemptionCode s))"
  show ?thesis
  proof (cases "length code = 8")
    case False
    then have w: "length (trim (js_string (input_of redemptionCode s))) \<noteq> 8"
      by (simp add: code_def)
    show ?thesis
      by (rule superseded_abort_only [OF assms])
         (cases "codeLookupController s"; simp add: handleInput_wrong_length [OF True w]; auto)+
  next
    case eight: True
    note p = handleInput_eight_requests [OF True code_def eight]
    show ?thesis
    proof (rule superseded_issue [OF assms, where ch = CodeLookup])
      show "aborted (handleInput s) =
          (case current_controller CodeLookup s of None \<Rightarrow> aborted s | Some c \<Rightarrow> c # aborted s)"
        by (simp add: p current_controller_def)
      show "controllers (handleInput s) = Suc (controllers s)" by (rule p(2))
      show "current_controller CodeLookup (handleInput s) = Some (controllers s)"
        by (simp add: p current_controller_def)
      show "current_controller ch' (handleInput s) = current_controller ch' s"
        if "ch' \<noteq> CodeLookup" for ch'
        using that by (cases ch') (simp_all add: p current_controller_def)
      show "pending (handleInput s) = pending s \<or>
           (\<exists>r. pending (handleInput s) = pending s @ [r] \<and> req_controller r = controllers s
                \<and> req_channel r = CodeLookup)"
        by (simp add: p code_request_def)
    qed
  qed
qed

lemma requests_resume: "requests_kept s (snd (queryAirtableContains_resume req how s))"
  by (cases how) (simp_all add: queryAirtableContains_resume_def requests_kept_def)

lemma settle_requests:
  assumes "i < length (pending s)"
  shows "pending (settle i how s) = take i (pending s) @ drop (Suc i) (pending s)"
    and "aborted (settle i how s) = aborted s"
    and "controllers (settle i how s) = controllers s"
    and "nameSearchController (settle i how s) = nameSearchController s"
    and "codeLookupController (settle i how s) = codeLookupController s"
proof -
  define req where "req = pending s ! i"
  define s1 where "s1 = s\<lparr>pending := take i (pending s) @ drop (Suc i) (pending s)\<rparr>"
  obtain res s2 where r: "queryAirtableContains_resume req how s1 = (res, s2)"
    by (cases "queryAirtableContains_resume req how s1")
  have k2: "requests_kept s1 s2"
    using requests_resume [of s1 req how] r by simp
  have e: "settle i how s =
      (case req_channel req of
         NameSearch \<Rightarrow> name_search_continue (req_text req) res s2
       | CodeLookup \<Rightarrow> code_lookup_continue (req_text req) res s2)"
    using assms r by (simp add: settle_def Let_def req_def [symmetric] s1_def [symmetric])
  have "requests_kept s1 (settle i how s)"
    unfolding e
    by (cases "req_channel req")
       (simp_all add: requests_kept_trans [OF k2 requests_name_search_continue]
          requests_kept_trans [OF k2 requests_code_lookup_continue])
  then show "pending (settle i how s) = take i (pending s) @ drop (Suc i) (pending s)"
    and "aborted (settle i how s) = aborted s"
    and "controllers (settle i how s) = controllers s"
    and "nameSearchController (settle i how s) = nameSearchController s"
    and "codeLookupController (settle i how s) = codeLookupController s"
    by (simp_all add: requests_kept_def s1_def)
qed

lemma superseded_settle:
  assumes "superseded_aborted s"
  shows "superseded_aborted (settle i how s)"
proof (cases "i < length (pending s)")
  case False
  then show ?thesis using assms by (simp add: settle_def)
next
  case True
  show ?thesis
    by (rule superseded_remove [OF assms settle_requests [OF True]])
qed

lemma superseded_step: "superseded_aborted s \<Longrightarrow> superseded_aborted (step s ev)"
proof (cases ev)
  case (UserTypes k v)
  assume "superseded_aborted s"
  then show ?thesis using UserTypes
    by (auto intro: superseded_kept fields_only_requests [OF fields_only_set_input]
          simp: user_types_def)
next
  case (Online b)
  assume "superseded_aborted s"
  then show ?thesis using Online
    by (auto intro: superseded_kept simp: requests_kept_def)
next
  case CooldownElapsed
  assume "superseded_aborted s"
  then show ?thesis using CooldownElapsed
    by (auto intro: superseded_kept simp: requests_kept_def cooldown_elapsed_def)
next
  case FTGForm_reset
  assume "superseded_aborted s"
  then show ?thesis using FTGForm_reset
    by (auto intro: superseded_kept fields_only_requests [OF fields_only_clearAndResetForm])
qed (auto intro: superseded_kept requests_name_listeners requests_onSelectItem
       requests_setMode requests_initializeFields superseded_name_source superseded_handleInput
       superseded_settle)

lemma superseded_run: "superseded_aborted s \<Longrightarrow> superseded_aborted (run s evs)"
  unfolding run_def by (induction evs arbitrary: s) (simp_all add: superseded_step)

lemma superseded_initial: "superseded_aborted (initializeSystem scan ac form initial_state)"
proof -
  have "pending (initializeSystem scan ac form initial_state) = []
      \<and> nameSearchController (initializeSystem scan ac form initial_state) = None
      \<and> codeLookupController (initializeSystem scan ac form initial_state) = None"
  proof -
    have k: "requests_kept initial_state (initializeFields scan initial_state)"
      by (rule requests_initializeFields)
    have u: "requests_kept x (updateFormSubmitState (x\<lparr>formEl := Some b\<rparr>))" for x b
      using requests_updateFormSubmitState [of "x\<lparr>formEl := Some b\<rparr>"]
      by (simp add: requests_kept_def)
    have "requests_kept initial_state (initializeSystem scan ac form initial_state)"
      unfolding initializeSystem_def Let_def
      using k u
      by (cases form) (auto simp: requests_kept_def)
    then show ?thesis by (simp add: requests_kept_def initial_state_def)
  qed
  then show ?thesis by (simp add: superseded_aborted_def)
qed

lemma settle_AbortError:
  assumes "i < length (pending s)"
  shows "settle i AbortError s =
     removeInlineSpinner (channel_field (req_channel (pending s ! i)))
       (s\<lparr>pending := take i (pending s) @ drop (Suc i) (pending s)\<rparr>)"
  using assms
  by (cases "req_channel (pending s ! i)")
     (simp_all add: settle_def Let_def queryAirtableContains_resume_def
        name_search_continue_def code_lookup_continue_def channel_field_def)



lemma handle_name_only:
  "handleRedemptionCodeSelection plain_record s =
     (Returned (),
      set_input customEstablishmentName ''Aman Tokyo''
        (set_input customEstablishmentName ''Aman Tokyo''
           (set_input officialEstablishmentName ''Aman Tokyo'' s)))"
  by (simp add: handleRedemptionCodeSelection_def dropdownMappings_def plain_record_def
        field_of_def updateSelectElements_def js_or_def Let_def setSelectValue_falsy)

lemma plain_lookup_continue:
  "code_lookup_continue code (Resolved \<lparr>records = Some [plain_record]\<rparr>) s =
     removeInlineSpinner redemptionCode
       (updateFormSubmitState
          ((set_input customEstablishmentName ''Aman Tokyo''
             (set_input customEstablishmentName ''Aman Tokyo''
                (set_input officialEstablishmentName ''Aman Tokyo''
                   (removeInlineErrorMessage redemptionCode
                      (removeNoResultsMessage redemptionCode s)))))
           \<lparr>lastSelectedEstablishment :=
               \<lparr>sel_id = Str ''rec1'', sel_name = Str ''Aman Tokyo''\<rparr>\<rparr>))"
proof -
  have p: "rec_id plain_record = Str ''rec1''"
      "field_of plain_record ''Official Establishment Name'' = Str ''Aman Tokyo''"
    by (simp_all add: plain_record_def field_of_def)
  show ?thesis
    by (simp add: code_lookup_continue_def handle_name_only p js_or_def)
qed





lemma form_fields_updateFormSubmitState:
  "form_fields (updateFormSubmitState s) = form_fields s"
  by (cases "formEl s") (simp_all add: updateFormSubmitState_def Let_def)


lemma two_lookups_state_eval:
  "pending two_lookups_state =
     [\<lparr>req_controller = 0, req_channel = CodeLookup, req_field = ''Redemption Code'',
       req_query = ''ABCD1234'', req_text = ''ABCD1234''\<rparr>,
      \<lparr>req_controller = 1, req_channel = CodeLookup, req_field = ''Redemption Code'',
       req_query = ''WXYZ5678'', req_text = ''WXYZ5678''\<rparr>]"
  "aborted two_lookups_state = [0]"
  "lastSelectedEstablishment two_lookups_state = \<lparr>sel_id = Null, sel_name = Null\<rparr>"
  "formEl two_lookups_state = Some [\<lparr>disabled = True, btn_aria_disabled = ''true''\<rparr>]"
  "map_option input_value (form_fields two_lookups_state officialEstablishmentName) = Some (Some [])"
  "callback_log two_lookups_state = []"
  by (simp_all add: two_lookups_state_def eval_gateway input_value_resetField)

lemma two_lookups_state_run:
  "two_lookups_state =
     run (initializeSystem example_fields True
            (Some [\<lparr>disabled = False, btn_aria_disabled = ''false''\<rparr>]) initial_state)
       [UserTypes redemptionCode ''ABCD1234'', CodeInput,
        UserTypes redemptionCode ''WXYZ5678'', CodeInput]"
  by (simp add: two_lookups_state_def example_state_def)

section \<open>The claims about single operations\<close>

lemma dropWhile_nil_iff: "dropWhile P s = [] \<longleftrightarrow> (\<forall>c \<in> set s. P c)"
  by (induction s) auto

lemma trim_empty_iff: "trim s = [] \<longleftrightarrow> (\<forall>c \<in> set s. is_space c)"
proof -
  have "(\<forall>c \<in> set (dropWhile is_space s). is_space c) \<longleftrightarrow> dropWhile is_space s = []"
  proof
    assume a: "\<forall>c \<in> set (dropWhile is_space s). is_space c"
    show "dropWhile is_space s = []"
    proof (rule ccontr)
      assume n: "dropWhile is_space s \<noteq> []"
      then have "\<not> is_space (hd (dropWhile is_space s))" by (rule hd_dropWhile)
      moreover have "hd (dropWhile is_space s) \<in> set (dropWhile is_space s)" using n by simp
      ultimately show False using a by blast
    qed
  next
    assume "dropWhile is_space s = []"
    then show "\<forall>c \<in> set (dropWhile is_space s). is_space c"
      by (simp only: list.set ball_empty)
  qed
  then show ?thesis by (simp add: trim_def dropWhile_nil_iff)
qed

lemma name_filter_iff:
  "name_filter r \<longleftrightarrow> \<not> (name_missing r \<or> name_not_a_string r \<or> name_whitespace_only r)"
proof (cases "field_of r ''Official Establishment Name''")
  case (Str s)
  have "s \<noteq> [] \<and> trim s \<noteq> [] \<longleftrightarrow> \<not> list_all is_space s"
    by (auto simp: trim_empty_iff list_all_iff)
  with Str show ?thesis
    by (simp add: name_filter_def name_missing_def name_not_a_string_def name_whitespace_only_def)
qed (simp_all add: name_filter_def name_missing_def name_not_a_string_def
       name_whitespace_only_def)

text \<open>
  Claim C3, amended. For the select of a bound field and every target string,
  \<^verbatim>\<open>setSelectValue\<close> returns true if and only if the target is not empty and some option's
  visible text, value or \<^verbatim>\<open>data-name\<close> attribute equals the target, ignoring case, or
  contains it as a substring; it returns false otherwise (it never throws on a string);
  and when it returns true the option it selects is the first one in document order that
  matches. An empty target is rejected by the guard \<^verbatim>\<open>!targetValue\<close> before any option is
  looked at.
\<close>

theorem setSelectValue_matches_nonempty_target:
  assumes "form_fields s k = Some f" and "fld_select f = Some sel"
  shows "(fst (setSelectValue k (Str t) s) = Returned True
            \<longleftrightarrow> t \<noteq> [] \<and> (\<exists>opt \<in> set (sel_options sel). claimed_match t opt))
       \<and> (fst (setSelectValue k (Str t) s) = Returned False
            \<longleftrightarrow> \<not> (t \<noteq> [] \<and> (\<exists>opt \<in> set (sel_options sel). claimed_match t opt)))
       \<and> (fst (setSelectValue k (Str t) s) = Returned True \<longrightarrow>
            (\<exists>i < length (sel_options sel).
               claimed_match t (sel_options sel ! i)
               \<and> (\<forall>j < i. \<not> claimed_match t (sel_options sel ! j))
               \<and> selected_index k (snd (setSelectValue k (Str t) s)) = Some (int i)))"
proof (cases "t = []")
  case True
  then show ?thesis by (simp add: setSelectValue_falsy)
next
  case False
  show ?thesis
  proof (cases "find_first (option_matches (toLowerCase t)) (sel_options sel)")
    case None
    then have "\<forall>opt \<in> set (sel_options sel). \<not> claimed_match t opt"
      by (simp add: find_first_None option_matches_iff)
    then show ?thesis
      using setSelectValue_nomatch [OF assms False None] by simp
  next
    case (Some p)
    obtain i m where p: "p = (i, m)" by (cases p)
    from find_first_Some [OF Some [unfolded p]]
    have i: "i < length (sel_options sel)" and m: "sel_options sel ! i = m"
      and pm: "claimed_match t m" and first: "\<forall>j < i. \<not> claimed_match t (sel_options sel ! j)"
      by (simp_all add: option_matches_iff)
    from i m pm have ex: "\<exists>opt \<in> set (sel_options sel). claimed_match t opt"
      using nth_mem by blast
    have sel: "selected_index k (snd (setSelectValue k (Str t) s)) = Some (int i)"
      using setSelectValue_match [OF assms False Some [unfolded p]] assms(1)
      by (simp add: selected_index_def form_fields_upd_field)
    show ?thesis
      using setSelectValue_match [OF assms False Some [unfolded p]] False ex i m pm first sel
      by auto
  qed
qed


theorem setSelectValue_matches_nonempty_target_witness:
  "form_fields example_state awardLevel = Some award_field
   \<and> fld_select award_field = Some award_select
   \<and> claimed_match ''GOLD'' (sel_options award_select ! 2)
   \<and> fst (setSelectValue awardLevel (Str ''GOLD'') example_state) = Returned True
   \<and> selected_index awardLevel (snd (setSelectValue awardLevel (Str ''GOLD'') example_state))
       = Some 2"
proof -
  have h2: "fld_select award_field = Some award_select" by (simp add: award_field_def)
  have m: "claimed_match ''GOLD'' (sel_options award_select ! 2)"
    unfolding option_matches_iff [symmetric]
    by (simp add: award_select_def eval_strings)
  have mem: "sel_options award_select ! 2 \<in> set (sel_options award_select)"
    by (simp add: award_select_def)
  from setSelectValue_matches_nonempty_target [OF example_award_field h2, of "''GOLD''"] m mem
  have r: "fst (setSelectValue awardLevel (Str ''GOLD'') example_state) = Returned True"
    by blast
  have i: "selected_index awardLevel (snd (setSelectValue awardLevel (Str ''GOLD'') example_state))
       = Some 2"
    by (simp add: setSelectValue_def example_award_field award_field_def award_select_def
          selected_index_def form_fields_upd_field eval_strings)
  from example_award_field h2 m r i show ?thesis by simp
qed

theorem setSelectValue_empty_target_counterexample:
  "form_fields example_state awardLevel = Some award_field
   \<and> fld_select award_field = Some award_select
   \<and> gold_tier \<in> set (sel_options award_select)
   \<and> claimed_match [] gold_tier
   \<and> fst (setSelectValue awardLevel (Str []) example_state) = Returned False"
proof -
  have "claimed_match [] gold_tier"
    unfolding option_matches_iff [symmetric, of "[]", simplified toLowerCase_def list.map]
    by (simp add: gold_tier_def eval_strings)
  then show ?thesis
    by (simp add: example_award_field setSelectValue_falsy award_field_def award_select_def
          gold_tier_def)
qed







text \<open>
  Claim C5. In every state the controller reaches from its initialisation by any sequence
  of events (edits, listener runs, widget calls, ends of requests, timers, and the three
  public operations), every submit button of the form is enabled if and only if the
  identity of the last selection is not \<^verbatim>\<open>null\<close>. And from any state, every event either
  leaves both the last selection and the buttons as they are, or leaves the buttons as
  \<^verbatim>\<open>updateFormSubmitState\<close> computes them from the last selection.
\<close>

theorem submit_follows_last_selection:
  "(case formEl (run (initializeSystem scan autocomplete_available form initial_state) evs) of
      None \<Rightarrow> True
    | Some submits \<Rightarrow>
        list_all (\<lambda>btn. (\<not> disabled btn) =
            (sel_id (lastSelectedEstablishment
               (run (initializeSystem scan autocomplete_available form initial_state) evs))
             \<noteq> Null)) submits)
   \<and> (selection_kept s (step s ev) \<or> submit_derived (step s ev))"
proof -
  let ?s = "run (initializeSystem scan autocomplete_available form initial_state) evs"
  have "submit_derived ?s"
    by (rule derived_run) (rule derived_initializeSystem)
  then have "case formEl ?s of None \<Rightarrow> True
    | Some submits \<Rightarrow>
        list_all (\<lambda>btn. (\<not> disabled btn) = (sel_id (lastSelectedEstablishment ?s) \<noteq> Null)) submits"
    by (cases "formEl ?s") (auto simp: submit_derived_def list_all_iff)
  with effect_step [of s ev] show ?thesis by simp
qed

theorem submit_follows_last_selection_witness:
  "run example_state [SelectItem aman_item] = selected_state
   \<and> sel_id (lastSelectedEstablishment selected_state) = Str ''rec1''
   \<and> formEl selected_state = Some [\<lparr>disabled = False, btn_aria_disabled = ''false''\<rparr>]
   \<and> sel_id (lastSelectedEstablishment
        (run example_state
           [SelectItem aman_item, UserTypes officialEstablishmentName ''Aman T'', NameInput]))
       = Null
   \<and> formEl (run example_state
           [SelectItem aman_item, UserTypes officialEstablishmentName ''Aman T'', NameInput])
       = Some [\<lparr>disabled = True, btn_aria_disabled = ''true''\<rparr>]"
proof -
  have r1: "run example_state [SelectItem aman_item] = selected_state"
    by (simp add: run_def selected_state_def)
  have r2: "run example_state
           [SelectItem aman_item, UserTypes officialEstablishmentName ''Aman T'', NameInput]
        = name_input_listener edited_state"
    by (simp add: run_def selected_state_def edited_state_def)
  have l: "lastSelectedEstablishment (name_input_listener edited_state)
       = \<lparr>sel_id = Null, sel_name = Null\<rparr>"
    by (rule edited_state_invalidated(1))
  from submit_follows_last_selection
         [of example_fields True "Some [\<lparr>disabled = False, btn_aria_disabled = ''false''\<rparr>]"
             "[SelectItem aman_item, UserTypes officialEstablishmentName ''Aman T'', NameInput]"
             example_state NameInput]
  have "case formEl (name_input_listener edited_state) of None \<Rightarrow> True
    | Some submits \<Rightarrow> list_all (\<lambda>btn. disabled btn) submits"
    unfolding example_state_def [symmetric] r2 l by (auto split: option.splits)
  moreover have "formEl (name_input_listener edited_state)
       = Some [\<lparr>disabled = True, btn_aria_disabled = ''true''\<rparr>]"
    by (rule edited_state_invalidated(2))
  ultimately show ?thesis
    unfolding r1 r2 l by (simp add: selected_state_selection)
qed


text \<open>
  Claim C6 fails as stated: entering a mode never shows or unlocks a field. After the name
  mode has hidden the code field, entering the code mode, which hides nothing, leaves it
  hidden; and the name field, locked by the code mode the controller starts in, stays
  locked in the name mode, which does not lock it.
\<close>

theorem setMode_counterexample:
  "map_option display_none
     (form_fields (setMode ''Partner Early-Access Code Lookup''
                     (setMode ''Establishment Name Lookup'' example_state)) redemptionCode)
     = Some True
   \<and> redemptionCode \<notin> set (hide (config_of ''Partner Early-Access Code Lookup''))
   \<and> map_option aria_disabled
       (form_fields (setMode ''Establishment Name Lookup'' example_state)
          officialEstablishmentName) = Some True
   \<and> officialEstablishmentName \<notin> set (prevent (config_of ''Establishment Name Lookup''))"
  by (simp add: form_fields_setMode example_state_fields example_fields_def mode_effect_def
        config_of_def MODES_def text_field_def)

text \<open>
  Claim C6, amended. For every mode, state and field key, entering the mode makes it the
  current mode, hides the wrapper of every bound field in the mode's hide list and locks
  every bound field in its prevent list that has a control, and leaves the visibility and
  the lock of every field as they were otherwise (a hidden field stays hidden, a locked
  one locked). Entering the same mode twice gives the same state as entering it once.
\<close>

theorem setMode_hides_and_locks:
  "currentMode (setMode mode s) = mode
   \<and> form_fields (setMode mode s) k =
       map_option
         (\<lambda>f. f\<lparr>display_none := display_none f \<or> k \<in> set (hide (config_of mode)),
                aria_disabled := aria_disabled f \<or>
                  (k \<in> set (prevent (config_of mode))
                   \<and> \<not> (fld_select f = None \<and> input_value f = None))\<rparr>)
         (form_fields s k)
   \<and> setMode mode (setMode mode s) = setMode mode s"
  using form_fields_setMode [of mode s k]
  unfolding mode_effect_def [abs_def]
  by (simp add: currentMode_setMode setMode_idem)

theorem setMode_hides_and_locks_witness:
  "currentMode (setMode ''Establishment Name Lookup'' example_state) = ''Establishment Name Lookup''
   \<and> map_option display_none
       (form_fields (setMode ''Establishment Name Lookup'' example_state) redemptionCode)
       = Some True
   \<and> map_option aria_disabled
       (form_fields (setMode ''Establishment Name Lookup'' example_state) awardLevel) = Some True
   \<and> map_option display_none
       (form_fields (setMode ''Establishment Name Lookup'' example_state) awardLevel) = Some False
   \<and> setMode ''Establishment Name Lookup'' (setMode ''Establishment Name Lookup'' example_state)
       = setMode ''Establishment Name Lookup'' example_state"
  using setMode_hides_and_locks [of "''Establishment Name Lookup''" example_state redemptionCode]
        setMode_hides_and_locks [of "''Establishment Name Lookup''" example_state awardLevel]
  by (simp add: example_state_fields example_fields_def mode_effect_def
        config_of_def MODES_def text_field_def select_field_def)












text \<open>
  Claim C9. For every list of records a query returns, the adapter keeps exactly the
  records whose \<^verbatim>\<open>Official Establishment Name\<close> is not missing, is a string and is not
  made of white space only, in their order, and turns each into the suggestion whose
  label and value are that name and whose data is the record itself; such a name is a
  string with a non-empty trim. Without a \<^verbatim>\<open>records\<close> property the result is empty.
\<close>

theorem autocomplete_adapter_filters_and_maps:
  "searchAirtableForAutocomplete \<lparr>records = Some rs\<rparr> =
     map (\<lambda>r. \<lparr>label = field_of r ''Official Establishment Name'',
               sugg_value = field_of r ''Official Establishment Name'',
               data = Some r\<rparr>)
         (filter (\<lambda>r. \<not> (name_missing r \<or> name_not_a_string r \<or> name_whitespace_only r)) rs)
   \<and> (\<forall>r \<in> set rs. \<not> (name_missing r \<or> name_not_a_string r \<or> name_whitespace_only r) \<longrightarrow>
         (\<exists>s. field_of r ''Official Establishment Name'' = Str s \<and> trim s \<noteq> []))
   \<and> searchAirtableForAutocomplete \<lparr>records = None\<rparr> = []"
proof -
  have "filter name_filter rs =
        filter (\<lambda>r. \<not> (name_missing r \<or> name_not_a_string r \<or> name_whitespace_only r)) rs"
    by (rule filter_cong) (simp_all add: name_filter_iff)
  moreover have "\<exists>s. field_of r ''Official Establishment Name'' = Str s \<and> trim s \<noteq> []"
    if "\<not> (name_missing r \<or> name_not_a_string r \<or> name_whitespace_only r)" for r
    using that unfolding name_filter_iff [symmetric]
    by (cases "field_of r ''Official Establishment Name''") (auto simp: name_filter_def Let_def)
  ultimately show ?thesis
    by (auto simp: searchAirtableForAutocomplete_def Let_def)
qed

theorem autocomplete_adapter_filters_and_maps_witness:
  "map data (searchAirtableForAutocomplete \<lparr>records = Some records_example\<rparr>) =
     [Some (records_example ! 0), Some (records_example ! 4)]
   \<and> map label (searchAirtableForAutocomplete \<lparr>records = Some records_example\<rparr>) =
     [Str ''Aman Tokyo'', Str '' Ritz '']
   \<and> records_example ! 4 \<in> set records_example
   \<and> \<not> (name_missing (records_example ! 4) \<or> name_not_a_string (records_example ! 4)
          \<or> name_whitespace_only (records_example ! 4))
   \<and> (\<exists>s. field_of (records_example ! 4) ''Official Establishment Name'' = Str s
          \<and> trim s \<noteq> [])"
proof -
  have a: "records_example ! 4 \<in> set records_example"
    by (simp add: records_example_def)
  have b: "\<not> (name_missing (records_example ! 4) \<or> name_not_a_string (records_example ! 4)
          \<or> name_whitespace_only (records_example ! 4))"
    by (simp add: records_example_def name_missing_def name_not_a_string_def
          name_whitespace_only_def field_of_def is_space_def)
  from autocomplete_adapter_filters_and_maps [of records_example] a b
  have c: "\<exists>s. field_of (records_example ! 4) ''Official Establishment Name'' = Str s
          \<and> trim s \<noteq> []"
    by blast
  from autocomplete_adapter_filters_and_maps [of records_example]
  have d: "searchAirtableForAutocomplete \<lparr>records = Some records_example\<rparr> =
     map (\<lambda>r. \<lparr>label = field_of r ''Official Establishment Name'',
               sugg_value = field_of r ''Official Establishment Name'',
               data = Some r\<rparr>)
         (filter (\<lambda>r. \<not> (name_missing r \<or> name_not_a_string r \<or> name_whitespace_only r))
            records_example)"
    by blast
  have e: "map data (searchAirtableForAutocomplete \<lparr>records = Some records_example\<rparr>) =
     [Some (records_example ! 0), Some (records_example ! 4)]"
    and f: "map label (searchAirtableForAutocomplete \<lparr>records = Some records_example\<rparr>) =
     [Str ''Aman Tokyo'', Str '' Ritz '']"
    unfolding d
    by (simp_all add: records_example_def name_missing_def name_not_a_string_def
          name_whitespace_only_def field_of_def is_space_def)
  from a b c e f show ?thesis by simp
qed

text \<open>
  Claim C10. For every state, \<^verbatim>\<open>clearAndResetForm\<close>, which is what \<^verbatim>\<open>FTGForm.reset\<close> runs,
  leaves \<^verbatim>\<open>lastSelectedEstablishment\<close> (identity and name) and the submit buttons as they
  are. Every bound field is reset (an input gets the empty value, a select its first
  option), loses its error, no-results, spinner and mismatch messages, and is locked when
  it is in the lock list of the current mode.
\<close>

theorem reset_keeps_last_selection:
  "lastSelectedEstablishment (clearAndResetForm s) = lastSelectedEstablishment s
   \<and> formEl (clearAndResetForm s) = formEl s
   \<and> step s FTGForm_reset = clearAndResetForm s
   \<and> form_fields (clearAndResetForm s) k =
       map_option
         (\<lambda>f. (if k \<in> set (preventList_of (currentMode s)) then preventEdit else id)
                 ((resetField f)\<lparr>inline_error := None, no_results := None, spinner := False,
                                 mismatch_text := None\<rparr>))
         (form_fields s k)
   \<and> input_value (resetField f) = map_option (\<lambda>_. []) (input_value f)
   \<and> map_option selectedIndex (fld_select (resetField f)) =
       map_option (\<lambda>sel. if sel_options sel = [] then - 1 else 0) (fld_select f)"
  using fields_only_proj(3,7) [OF fields_only_clearAndResetForm, of s]
        form_fields_clearAndResetForm [of s k]
  unfolding reset_effect_def [abs_def]
  by (simp add: input_value_resetField select_resetField)


theorem reset_keeps_last_selection_witness:
  "lastSelectedEstablishment (clearAndResetForm selected_state)
     = \<lparr>sel_id = Str ''rec1'', sel_name = Str ''Aman Tokyo''\<rparr>
   \<and> formEl (clearAndResetForm selected_state)
     = Some [\<lparr>disabled = False, btn_aria_disabled = ''false''\<rparr>]
   \<and> map_option input_value (form_fields selected_state customEstablishmentName)
     = Some (Some ''Aman Tokyo'')
   \<and> map_option input_value (form_fields (clearAndResetForm selected_state) customEstablishmentName)
     = Some (Some [])"
proof -
  note inst = reset_keeps_last_selection [of selected_state customEstablishmentName]
  obtain f where f: "form_fields selected_state customEstablishmentName = Some f"
      and i: "input_value f = Some ''Aman Tokyo''"
    using selected_state_fields(2)
    by (cases "form_fields selected_state customEstablishmentName") auto
  have "map_option input_value
      (form_fields (clearAndResetForm selected_state) customEstablishmentName) = Some (Some [])"
    unfolding inst [THEN conjunct2, THEN conjunct2, THEN conjunct2, THEN conjunct1]
    using f i by (simp add: preventList_of_def preventEdit_def input_value_resetField)
  with inst [THEN conjunct1] inst [THEN conjunct2, THEN conjunct1] selected_state_fields(2)
  show ?thesis by (simp add: selected_state_selection)
qed

section \<open>The claim about superseded requests\<close>

text \<open>
  Claim C1, amended. In every state reached from initialisation by any sequence of events,
  of two requests in flight on the same channel the earlier one was issued under an older
  abort controller, and that controller has been aborted: a handler that issues a request
  first aborts the controller its channel held. When a request ends with the abort error,
  the handler that waits for it only removes the spinner of the channel's field: the
  request leaves the requests in flight, the fields are otherwise unchanged, and so is
  everything else (the last selection, the submit buttons, the cache, the callbacks).
\<close>

theorem superseded_request_is_aborted:
  assumes "S = run (initializeSystem scan ac form initial_state) evs"
    and "i < j" and "j < length (pending S)"
    and "req_channel (pending S ! i) = req_channel (pending S ! j)"
  shows "req_controller (pending S ! i) \<in> set (aborted S)
       \<and> req_controller (pending S ! i) < req_controller (pending S ! j)
       \<and> pending (settle i AbortError S) = take i (pending S) @ drop (Suc i) (pending S)
       \<and> form_fields (settle i AbortError S) k =
           (if k = channel_field (req_channel (pending S ! i))
            then map_option (\<lambda>f. f\<lparr>spinner := False\<rparr>) (form_fields S k)
            else form_fields S k)
       \<and> fields_only (S\<lparr>pending := take i (pending S) @ drop (Suc i) (pending S)\<rparr>)
            (settle i AbortError S)"
proof -
  have inv: "superseded_aborted S"
    unfolding assms(1) by (rule superseded_run [OF superseded_initial])
  have a: "req_controller (pending S ! i) \<in> set (aborted S)"
    by (rule superseded_earlier_aborted [OF inv assms(2,3,4)])
  have "sorted_wrt (<) (map req_controller (pending S))"
    using inv by (simp add: superseded_aborted_def)
  from sorted_wrt_nth_less [OF this, of i j] assms(2,3)
  have b: "req_controller (pending S ! i) < req_controller (pending S ! j)" by simp
  have i: "i < length (pending S)" using assms(2,3) by simp
  note e = settle_AbortError [OF i]
  have c: "pending (settle i AbortError S) = take i (pending S) @ drop (Suc i) (pending S)"
    unfolding e by (simp add: removeInlineSpinner_def upd_field_eq)
  have d: "form_fields (settle i AbortError S) k =
           (if k = channel_field (req_channel (pending S ! i))
            then map_option (\<lambda>f. f\<lparr>spinner := False\<rparr>) (form_fields S k)
            else form_fields S k)"
    unfolding e by (simp add: removeInlineSpinner_def form_fields_upd_field)
  have f: "fields_only (S\<lparr>pending := take i (pending S) @ drop (Suc i) (pending S)\<rparr>)
            (settle i AbortError S)"
    unfolding e removeInlineSpinner_def by (rule fields_only_upd_field)
  from a b c d f show ?thesis by simp
qed


theorem superseded_request_is_aborted_witness:
  "map req_controller (pending two_lookups_state) = [0, 1]
   \<and> map req_channel (pending two_lookups_state) = [CodeLookup, CodeLookup]
   \<and> aborted two_lookups_state = [0]
   \<and> req_controller (pending two_lookups_state ! 0) \<in> set (aborted two_lookups_state)
   \<and> map req_controller (pending (settle 0 AbortError two_lookups_state)) = [1]
   \<and> form_fields (settle 0 AbortError two_lookups_state) officialEstablishmentName
       = form_fields two_lookups_state officialEstablishmentName
   \<and> lastSelectedEstablishment (settle 0 AbortError two_lookups_state)
       = \<lparr>sel_id = Null, sel_name = Null\<rparr>"
proof -
  have h: "(0::nat) < 1" "1 < length (pending two_lookups_state)"
      "req_channel (pending two_lookups_state ! 0) = req_channel (pending two_lookups_state ! 1)"
    by (simp_all add: two_lookups_state_eval)
  note t = superseded_request_is_aborted [OF two_lookups_state_run h,
      of officialEstablishmentName]
  have l: "lastSelectedEstablishment (settle 0 AbortError two_lookups_state)
       = \<lparr>sel_id = Null, sel_name = Null\<rparr>"
    using fields_only_proj(3) [OF t [THEN conjunct2, THEN conjunct2, THEN conjunct2,
        THEN conjunct2]]
    by (simp add: two_lookups_state_eval)
  show ?thesis
    using t l by (simp add: two_lookups_state_eval channel_field_def)
qed


text \<open>
  Claim C1 fails as stated, for a resolution that arrives despite the cancellation: the
  code has no test of whether a result belongs to the most recently issued request of its
  channel, it relies on the aborted \<^verbatim>\<open>fetch\<close> to reject. In the example two codes are
  looked up one after the other, so that the first request is in flight with its
  controller aborted and the second one is in flight after it. When the first request then
  resolves with the record \<^verbatim>\<open>rec1\<close> named \<^verbatim>\<open>Aman Tokyo\<close>, the result is applied: the name is
  written into the name field, the last selection is set and the submit button is enabled.
\<close>

theorem stale_resolution_counterexample:
  "req_controller (pending two_lookups_state ! 0) \<in> set (aborted two_lookups_state)
   \<and> req_channel (pending two_lookups_state ! 0) = req_channel (pending two_lookups_state ! 1)
   \<and> req_controller (pending two_lookups_state ! 0) < req_controller (pending two_lookups_state ! 1)
   \<and> lastSelectedEstablishment two_lookups_state = \<lparr>sel_id = Null, sel_name = Null\<rparr>
   \<and> lastSelectedEstablishment
        (settle 0 (Resolved \<lparr>records = Some [plain_record]\<rparr>) two_lookups_state)
       = \<lparr>sel_id = Str ''rec1'', sel_name = Str ''Aman Tokyo''\<rparr>
   \<and> map_option input_value (form_fields two_lookups_state officialEstablishmentName)
       = Some (Some [])
   \<and> map_option input_value
        (form_fields (settle 0 (Resolved \<lparr>records = Some [plain_record]\<rparr>) two_lookups_state)
           officialEstablishmentName)
       = Some (Some ''Aman Tokyo'')
   \<and> formEl (settle 0 (Resolved \<lparr>records = Some [plain_record]\<rparr>) two_lookups_state)
       = Some [\<lparr>disabled = False, btn_aria_disabled = ''false''\<rparr>]"
proof -
  let ?d = "\<lparr>records = Some [plain_record]\<rparr>"
  let ?s = "two_lookups_state\<lparr>pending := drop 1 (pending two_lookups_state),
               airtableCache := cacheSet MAX_CACHE (airtableCache two_lookups_state)
                  (cacheKey_of ''Redemption Code'' ''ABCD1234'') ?d\<rparr>"
  have e: "settle 0 (Resolved ?d) two_lookups_state
      = code_lookup_continue ''ABCD1234'' (Resolved ?d) ?s"
    by (simp add: settle_def two_lookups_state_eval(1) queryAirtableContains_resume_def)
  obtain fl where fl: "form_fields two_lookups_state officialEstablishmentName = Some fl"
      and v: "input_value fl = Some []"
    using two_lookups_state_eval(5)
    by (cases "form_fields two_lookups_state officialEstablishmentName") auto
  have 1: "lastSelectedEstablishment (settle 0 (Resolved ?d) two_lookups_state)
       = \<lparr>sel_id = Str ''rec1'', sel_name = Str ''Aman Tokyo''\<rparr>"
    unfolding e plain_lookup_continue
    by (simp add: set_input_def message_defs upd_field_eq updateFormSubmitState_def
          two_lookups_state_eval(4))
  have 2: "formEl (settle 0 (Resolved ?d) two_lookups_state)
       = Some [\<lparr>disabled = False, btn_aria_disabled = ''false''\<rparr>]"
    unfolding e plain_lookup_continue
    by (simp add: set_input_def message_defs upd_field_eq updateFormSubmitState_def
          two_lookups_state_eval(4))
  have 3: "map_option input_value
        (form_fields (settle 0 (Resolved ?d) two_lookups_state) officialEstablishmentName)
       = Some (Some ''Aman Tokyo'')"
    unfolding e plain_lookup_continue using fl v
    by (simp add: form_fields_set_input message_defs form_fields_upd_field
          form_fields_updateFormSubmitState)
  show ?thesis
    using 1 2 3 by (simp add: two_lookups_state_eval)
qed

end
